theory Spec2Isabelle
  imports Main "HOL-Library.Word"
begin

section \<open>The buffer cache of kernel/bio.c\<close>

text \<open>
  The cache is a fixed array of \<open>struct buf\<close> slots, thirteen hash buckets and one
  free list.  Every list is circular and doubly linked through the \<open>prev\<close> and
  \<open>next\<close> fields of the slots, with a sentinel \<open>struct buf\<close> as its head.  The
  model keeps the pointers: a store maps every \<open>struct buf\<close> object of the file to
  its fields, and the functions below update that store statement by statement.
\<close>

subsection \<open>Data\<close>

type_synonym u32 = "32 word"
type_synonym pid = nat
type_synonym bytes = "8 word list"

text \<open>
  A value of type \<open>struct buf *\<close>: the null pointer, \<open>&cache[i]\<close>,
  \<open>&hash_table[i].head\<close> or \<open>&freelist_head\<close>.  Null only occurs in memory that
  \<open>binit\<close> has not written yet; \<open>binit\<close> writes every link before it reads it.
\<close>

datatype ptr = Null | Cache nat | HashHead nat | FreelistHead

text \<open>
  Modelled from the spec: \<open>struct buf\<close> is declared in buf.h, which is not part of the
  sources.  The fields are the ones bio.c uses: the validity flag, the identity
  (\<open>uint dev\<close>, \<open>uint blockno\<close> as \<open>bget\<close> receives them), the content-access
  primitive (a sleep lock, here the pid of its holder), the reference count (a 32-bit
  machine integer: \<open>refcnt--\<close> at zero gives the all-ones word, which reads \<open>-1\<close> as
  \<open>int\<close> and \<open>2^32 - 1\<close> as \<open>uint\<close>), the two links and the content bytes.
\<close>

record buf =
  valid :: bool
  dev :: u32
  blockno :: u32
  lock :: "pid option"
  refcnt :: u32
  prev :: ptr
  "next" :: ptr
  data :: bytes

datatype spinlock = BucketLock nat | FreelistLock

datatype lock_event = Acquire spinlock | Release spinlock

datatype io_event = DiskRead u32 u32 | DiskWrite u32 u32 bytes

text \<open>
  How a call can fail to return a value: \<open>panic\<close> with its message; the calling thread
  suspended in \<open>acquiresleep\<close> on a slot whose content access another holder has; an
  index outside \<open>hash_table\<close>; a list traversal that never reaches the list head.
\<close>

datatype error = Panic string | Sleeps ptr | OutOfBounds | Hangs

text \<open>
  The state: the fields of every \<open>struct buf\<close> object, the block device, the
  transfers the device has been asked for so far, and the spinlock calls made so far.
\<close>

record bstate =
  mem :: "ptr \<Rightarrow> buf"
  disk :: "u32 \<times> u32 \<Rightarrow> bytes"
  io :: "io_event list"
  spin :: "lock_event list"

definition NHASH :: nat where
  "NHASH = 13"

subsection \<open>Collaborators\<close>

text \<open>
  Modelled from the spec: \<open>acquire\<close> and \<open>release\<close> of spinlock.c are not part of the
  sources.  A structural lock is a short-hold mutual exclusion; for the one calling
  thread a call is recorded as an event, in call order.
\<close>

definition acquire :: "spinlock \<Rightarrow> bstate \<Rightarrow> bstate" where
  "acquire l s = s\<lparr>spin := spin s @ [Acquire l]\<rparr>"

definition release :: "spinlock \<Rightarrow> bstate \<Rightarrow> bstate" where
  "release l s = s\<lparr>spin := spin s @ [Release l]\<rparr>"

text \<open>An assignment to fields of the object \<open>b\<close> points to: \<open>b->f = v\<close>.\<close>

definition upd :: "ptr \<Rightarrow> (buf \<Rightarrow> buf) \<Rightarrow> bstate \<Rightarrow> bstate" where
  "upd b f s = s\<lparr>mem := (mem s)(b := f (mem s b))\<rparr>"

text \<open>
  Modelled from the spec: the sleep lock of sleeplock.c is not part of the sources.
  The content-access primitive is exclusive and blocking: at most one caller holds it,
  and acquiring it while it is held suspends the caller.  \<open>p\<close> is the calling process.
\<close>

definition initsleeplock :: "ptr \<Rightarrow> bstate \<Rightarrow> bstate" where
  "initsleeplock b s = upd b (\<lambda>x. x\<lparr>lock := None\<rparr>) s"

definition holdingsleep :: "pid \<Rightarrow> ptr \<Rightarrow> bstate \<Rightarrow> bool" where
  "holdingsleep p b s = (lock (mem s b) = Some p)"

definition acquiresleep :: "pid \<Rightarrow> ptr \<Rightarrow> bstate \<Rightarrow> error + bstate" where
  "acquiresleep p b s =
     (if lock (mem s b) = None then Inr (upd b (\<lambda>x. x\<lparr>lock := Some p\<rparr>) s)
      else Inl (Sleeps b))"

definition releasesleep :: "ptr \<Rightarrow> bstate \<Rightarrow> bstate" where
  "releasesleep b s = upd b (\<lambda>x. x\<lparr>lock := None\<rparr>) s"

text \<open>
  Modelled from the spec: \<open>virtio_disk_rw\<close> is the device collaborator, not part of
  the sources.  Given a slot's device id, block number and content it either fills the
  content from the device or persists the content to it; every call is recorded.
\<close>

definition virtio_disk_rw :: "ptr \<Rightarrow> bool \<Rightarrow> bstate \<Rightarrow> bstate" where
  "virtio_disk_rw b write s =
     (let d = dev (mem s b); n = blockno (mem s b) in
      if write
      then s\<lparr>disk := (disk s)((d, n) := data (mem s b)),
             io := io s @ [DiskWrite d n (data (mem s b))]\<rparr>
      else (upd b (\<lambda>x. x\<lparr>data := disk s (d, n)\<rparr>) s)\<lparr>io := io s @ [DiskRead d n]\<rparr>)"

subsection \<open>hash\<close>

text \<open>
  \<open>int hash(int blockno) { return blockno % NHASH; }\<close>: the remainder of C, which
  truncates towards zero and so has the sign of \<open>blockno\<close>.  The callers pass a
  \<open>uint\<close>, converted to \<open>int\<close> (\<open>sint\<close>).
\<close>

definition hash :: "int \<Rightarrow> int" where
  "hash k = sgn k * (\<bar>k\<bar> mod int NHASH)"

subsection \<open>List surgery\<close>

text \<open>
  \<open>b->next->prev = b->prev; b->prev->next = b->next;\<close> as in \<open>bget\<close> and
  \<open>brelse\<close>.
\<close>

definition unlink :: "ptr \<Rightarrow> bstate \<Rightarrow> bstate" where
  "unlink b s =
     (let s1 = upd (next (mem s b)) (\<lambda>x. x\<lparr>prev := prev (mem s b)\<rparr>) s;
          s2 = upd (prev (mem s1 b)) (\<lambda>x. x\<lparr>next := next (mem s1 b)\<rparr>) s1
      in s2)"

text \<open>
  \<open>b->next = head.next; b->prev = &head; head.next->prev = b; head.next = b;\<close>
  as in \<open>binit\<close>, \<open>bget\<close> and \<open>brelse\<close>.
\<close>

definition link_front :: "ptr \<Rightarrow> ptr \<Rightarrow> bstate \<Rightarrow> bstate" where
  "link_front lh b s =
     (let s1 = upd b (\<lambda>x. x\<lparr>next := next (mem s lh)\<rparr>) s;
          s2 = upd b (\<lambda>x. x\<lparr>prev := lh\<rparr>) s1;
          s3 = upd (next (mem s2 lh)) (\<lambda>x. x\<lparr>prev := b\<rparr>) s2;
          s4 = upd lh (\<lambda>x. x\<lparr>next := b\<rparr>) s3
      in s4)"

subsection \<open>binit\<close>

definition binit_bucket :: "nat \<Rightarrow> bstate \<Rightarrow> bstate" where
  "binit_bucket i s =
     (let s1 = upd (HashHead i) (\<lambda>x. x\<lparr>prev := HashHead i\<rparr>) s;
          s2 = upd (HashHead i) (\<lambda>x. x\<lparr>next := HashHead i\<rparr>) s1
      in s2)"

definition binit_slot :: "nat \<Rightarrow> bstate \<Rightarrow> bstate" where
  "binit_slot i s = link_front FreelistHead (Cache i) (initsleeplock (Cache i) s)"

text \<open>
  \<open>NBUF\<close> comes from param.h, which is not part of the sources: it is the parameter
  \<open>nbuf\<close>.  The two \<open>for\<close> loops run over \<open>0 .. NHASH - 1\<close> and over the slots
  \<open>cache[0] .. cache[NBUF - 1]\<close>.  \<open>initlock\<close> only names a spinlock and marks it
  free; the spinlock events recorded below start after \<open>binit\<close>, so it leaves no trace
  in the state.
\<close>

definition binit :: "nat \<Rightarrow> bstate \<Rightarrow> bstate" where
  "binit nbuf s =
     (let s1 = fold binit_bucket [0..<NHASH] s;
          s2 = upd FreelistHead (\<lambda>x. x\<lparr>next := FreelistHead\<rparr>) s1;
          s3 = upd FreelistHead (\<lambda>x. x\<lparr>prev := FreelistHead\<rparr>) s2
      in fold binit_slot [0..<nbuf] s3)"

subsection \<open>bget and bread\<close>

text \<open>
  The scan of a bucket: \<open>for (b = head.next; b != &head; b = b->next)\<close> with the
  identity test.  \<open>Some (Some b)\<close> is a hit on \<open>b\<close>, \<open>Some None\<close> the end of the
  list, \<open>None\<close> a traversal that never comes back to the head.
\<close>

partial_function (option) bget_scan ::
  "(ptr \<Rightarrow> buf) \<Rightarrow> ptr \<Rightarrow> u32 \<Rightarrow> u32 \<Rightarrow> ptr \<Rightarrow> ptr option option" where
  "bget_scan m lh d n b =
     (if b = lh then Some None
      else if dev (m b) = d \<and> blockno (m b) = n then Some (Some b)
      else bget_scan m lh d n (next (m b)))"

text \<open>
  The scan of the free list:
  \<open>for (b = freelist_head.next; b != &freelist_head; b = b->next)\<close> with the test
  \<open>b->refcnt == 0\<close>.
\<close>

partial_function (option) bget_free :: "(ptr \<Rightarrow> buf) \<Rightarrow> ptr \<Rightarrow> ptr option option" where
  "bget_free m b =
     (if b = FreelistHead then Some None
      else if refcnt (m b) = 0 then Some (Some b)
      else bget_free m (next (m b)))"

text \<open>The body of the first loop's \<open>if\<close>: a hit on \<open>b\<close> in bucket \<open>h\<close>.\<close>

definition bget_hit :: "pid \<Rightarrow> nat \<Rightarrow> ptr \<Rightarrow> bstate \<Rightarrow> error + ptr \<times> bstate" where
  "bget_hit p h b s =
     (let s1 = upd b (\<lambda>x. x\<lparr>refcnt := refcnt x + 1\<rparr>) s;
          s2 = release (BucketLock h) s1
      in case acquiresleep p b s2 of
           Inl e \<Rightarrow> Inl e
         | Inr s3 \<Rightarrow> Inr (b, s3))"

text \<open>The body of the second loop's \<open>if\<close>: the free slot \<open>b\<close> is claimed for bucket \<open>h\<close>.\<close>

definition bget_claim ::
  "pid \<Rightarrow> nat \<Rightarrow> u32 \<Rightarrow> u32 \<Rightarrow> ptr \<Rightarrow> bstate \<Rightarrow> error + ptr \<times> bstate" where
  "bget_claim p h d n b s =
     (let s1 = unlink b s;
          s2 = release FreelistLock s1;
          s3 = upd b (\<lambda>x. x\<lparr>dev := d\<rparr>) s2;
          s4 = upd b (\<lambda>x. x\<lparr>blockno := n\<rparr>) s3;
          s5 = upd b (\<lambda>x. x\<lparr>valid := False\<rparr>) s4;
          s6 = upd b (\<lambda>x. x\<lparr>refcnt := 1\<rparr>) s5;
          s7 = link_front (HashHead h) b s6;
          s8 = release (BucketLock h) s7
      in case acquiresleep p b s8 of
           Inl e \<Rightarrow> Inl e
         | Inr s9 \<Rightarrow> Inr (b, s9))"

definition bget :: "pid \<Rightarrow> u32 \<Rightarrow> u32 \<Rightarrow> bstate \<Rightarrow> error + ptr \<times> bstate" where
  "bget p d n s =
     (let h = hash (sint n) in
      if h < 0 then Inl OutOfBounds
      else
        let s1 = acquire (BucketLock (nat h)) s in
        case bget_scan (mem s1) (HashHead (nat h)) d n (next (mem s1 (HashHead (nat h)))) of
          None \<Rightarrow> Inl Hangs
        | Some (Some b) \<Rightarrow> bget_hit p (nat h) b s1
        | Some None \<Rightarrow>
            let s2 = acquire FreelistLock s1 in
            (case bget_free (mem s2) (next (mem s2 FreelistHead)) of
               None \<Rightarrow> Inl Hangs
             | Some (Some b) \<Rightarrow> bget_claim p (nat h) d n b s2
             | Some None \<Rightarrow> Inl (Panic ''bget: no buffers'')))"

definition bread :: "pid \<Rightarrow> u32 \<Rightarrow> u32 \<Rightarrow> bstate \<Rightarrow> error + ptr \<times> bstate" where
  "bread p d n s =
     (case bget p d n s of
        Inl e \<Rightarrow> Inl e
      | Inr (b, s1) \<Rightarrow>
          if \<not> valid (mem s1 b)
          then Inr (b, upd b (\<lambda>x. x\<lparr>valid := True\<rparr>) (virtio_disk_rw b False s1))
          else Inr (b, s1))"

subsection \<open>A fetch in two parts\<close>

text \<open>
  \<open>acquiresleep\<close> is the one place where \<open>bread\<close> can be suspended.  The two
  halves of \<open>bread\<close> around that point are named here: \<open>bget_enter\<close> is \<open>bget\<close>
  up to, and without, its \<open>acquiresleep\<close> (the bucket scan with \<open>b->refcnt++\<close>, or
  the claim of a free slot, and the release of the spinlocks); \<open>bread_wake\<close> is the
  rest of \<open>bread\<close>, from \<open>acquiresleep\<close> on.  A fetch that finds the slot held is
  suspended between the two, in the state \<open>bget_enter\<close> returns, and goes on with
  \<open>bread_wake\<close> in whatever state the cache has when it is woken.
\<close>

definition bget_hit_enter :: "nat \<Rightarrow> ptr \<Rightarrow> bstate \<Rightarrow> bstate" where
  "bget_hit_enter h b s =
     (let s1 = upd b (\<lambda>x. x\<lparr>refcnt := refcnt x + 1\<rparr>) s;
          s2 = release (BucketLock h) s1
      in s2)"

definition bget_claim_enter :: "nat \<Rightarrow> u32 \<Rightarrow> u32 \<Rightarrow> ptr \<Rightarrow> bstate \<Rightarrow> bstate" where
  "bget_claim_enter h d n b s =
     (let s1 = unlink b s;
          s2 = release FreelistLock s1;
          s3 = upd b (\<lambda>x. x\<lparr>dev := d\<rparr>) s2;
          s4 = upd b (\<lambda>x. x\<lparr>blockno := n\<rparr>) s3;
          s5 = upd b (\<lambda>x. x\<lparr>valid := False\<rparr>) s4;
          s6 = upd b (\<lambda>x. x\<lparr>refcnt := 1\<rparr>) s5;
          s7 = link_front (HashHead h) b s6;
          s8 = release (BucketLock h) s7
      in s8)"

definition bget_enter :: "u32 \<Rightarrow> u32 \<Rightarrow> bstate \<Rightarrow> error + ptr \<times> bstate" where
  "bget_enter d n s =
     (let h = hash (sint n) in
      if h < 0 then Inl OutOfBounds
      else
        let s1 = acquire (BucketLock (nat h)) s in
        case bget_scan (mem s1) (HashHead (nat h)) d n (next (mem s1 (HashHead (nat h)))) of
          None \<Rightarrow> Inl Hangs
        | Some (Some b) \<Rightarrow> Inr (b, bget_hit_enter (nat h) b s1)
        | Some None \<Rightarrow>
            let s2 = acquire FreelistLock s1 in
            (case bget_free (mem s2) (next (mem s2 FreelistHead)) of
               None \<Rightarrow> Inl Hangs
             | Some (Some b) \<Rightarrow> Inr (b, bget_claim_enter (nat h) d n b s2)
             | Some None \<Rightarrow> Inl (Panic ''bget: no buffers'')))"

definition bread_wake :: "pid \<Rightarrow> ptr \<Rightarrow> bstate \<Rightarrow> error + ptr \<times> bstate" where
  "bread_wake p b s =
     (case acquiresleep p b s of
        Inl e \<Rightarrow> Inl e
      | Inr s1 \<Rightarrow>
          if \<not> valid (mem s1 b)
          then Inr (b, upd b (\<lambda>x. x\<lparr>valid := True\<rparr>) (virtio_disk_rw b False s1))
          else Inr (b, s1))"

subsection \<open>bwrite, brelse, bpin, bunpin\<close>

definition bwrite :: "pid \<Rightarrow> ptr \<Rightarrow> bstate \<Rightarrow> error + bstate" where
  "bwrite p b s =
     (if \<not> holdingsleep p b s then Inl (Panic ''bwrite'')
      else Inr (virtio_disk_rw b True s))"

definition brelse :: "pid \<Rightarrow> ptr \<Rightarrow> bstate \<Rightarrow> error + bstate" where
  "brelse p b s =
     (if \<not> holdingsleep p b s then Inl (Panic ''brelse'')
      else
        let s1 = releasesleep b s;
            h = hash (sint (blockno (mem s1 b)))
        in if h < 0 then Inl OutOfBounds
           else
             let s2 = acquire (BucketLock (nat h)) s1;
                 s3 = upd b (\<lambda>x. x\<lparr>refcnt := refcnt x - 1\<rparr>) s2
             in if refcnt (mem s3 b) = 0
                then
                  let s4 = unlink b s3;
                      s5 = acquire FreelistLock s4;
                      s6 = link_front FreelistHead b s5;
                      s7 = release FreelistLock s6
                  in Inr (release (BucketLock (nat h)) s7)
                else Inr (release (BucketLock (nat h)) s3))"

definition bpin :: "ptr \<Rightarrow> bstate \<Rightarrow> error + bstate" where
  "bpin b s =
     (let h = hash (sint (blockno (mem s b))) in
      if h < 0 then Inl OutOfBounds
      else
        let s1 = acquire (BucketLock (nat h)) s;
            s2 = upd b (\<lambda>x. x\<lparr>refcnt := refcnt x + 1\<rparr>) s1
        in Inr (release (BucketLock (nat h)) s2))"

definition bunpin :: "ptr \<Rightarrow> bstate \<Rightarrow> error + bstate" where
  "bunpin b s =
     (let h = hash (sint (blockno (mem s b))) in
      if h < 0 then Inl OutOfBounds
      else
        let s1 = acquire (BucketLock (nat h)) s;
            s2 = upd b (\<lambda>x. x\<lparr>refcnt := refcnt x - 1\<rparr>) s1
        in Inr (release (BucketLock (nat h)) s2))"

subsection \<open>Memory before binit, and sequences of calls\<close>

text \<open>
  The objects of bio.c have static storage, so they are zeroed when the kernel starts.
  \<open>z\<close> is the content of a zeroed buffer (\<open>BSIZE\<close> zero bytes; \<open>BSIZE\<close> comes from
  fs.h, which is not part of the sources) and \<open>dsk\<close> the content of the device.
\<close>

definition boot :: "bytes \<Rightarrow> (u32 \<times> u32 \<Rightarrow> bytes) \<Rightarrow> bstate" where
  "boot z dsk =
     \<lparr>mem = (\<lambda>_. \<lparr>valid = False, dev = 0, blockno = 0, lock = None, refcnt = 0,
                   prev = Null, next = Null, data = z\<rparr>),
      disk = dsk, io = [], spin = []\<rparr>"

datatype call =
    Bread pid u32 u32
  | Bwrite pid ptr
  | Brelse pid ptr
  | Bpin ptr
  | Bunpin ptr

fun step :: "call \<Rightarrow> bstate \<Rightarrow> error + bstate" where
  "step (Bread p d n) s = (case bread p d n s of Inl e \<Rightarrow> Inl e | Inr (b, s') \<Rightarrow> Inr s')"
| "step (Bwrite p b) s = bwrite p b s"
| "step (Brelse p b) s = brelse p b s"
| "step (Bpin b) s = bpin b s"
| "step (Bunpin b) s = bunpin b s"

fun run :: "call list \<Rightarrow> bstate \<Rightarrow> error + bstate" where
  "run [] s = Inr s"
| "run (c # cs) s = (case step c s of Inl e \<Rightarrow> Inl e | Inr s' \<Rightarrow> run cs s')"

subsection \<open>Reading the lists off the store\<close>

text \<open>
  The members of the list with head \<open>lh\<close>, in list order: the nodes a traversal
  \<open>for (b = lh->next; b != lh; b = b->next)\<close> visits, \<open>nx\<close> being the \<open>next\<close>
  field of every node.  \<open>None\<close> when the traversal never comes back to \<open>lh\<close>.
\<close>

partial_function (option) walk :: "(ptr \<Rightarrow> ptr) \<Rightarrow> ptr \<Rightarrow> ptr \<Rightarrow> ptr list option" where
  "walk nx lh b =
     (if b = lh then Some []
      else Option.bind (walk nx lh (nx b)) (\<lambda>xs. Some (b # xs)))"

definition list_of :: "bstate \<Rightarrow> ptr \<Rightarrow> ptr list option" where
  "list_of s lh = walk (\<lambda>x. next (mem s x)) lh (next (mem s lh))"

definition members :: "bstate \<Rightarrow> ptr \<Rightarrow> ptr set" where
  "members s lh = (case list_of s lh of None \<Rightarrow> {} | Some xs \<Rightarrow> set xs)"

text \<open>The heads of the lists: the free list and the \<open>NHASH\<close> buckets.\<close>

definition heads :: "ptr set" where
  "heads = insert FreelistHead (HashHead ` {..<NHASH})"

text \<open>
  \<open>chain m p xs q\<close>: following \<open>next\<close> from \<open>p\<close> visits exactly \<open>xs\<close> and then
  \<open>q\<close>, and every \<open>prev\<close> link on the way points back.  A list is a ring through
  its head.
\<close>

fun chain :: "(ptr \<Rightarrow> buf) \<Rightarrow> ptr \<Rightarrow> ptr list \<Rightarrow> ptr \<Rightarrow> bool" where
  "chain m p [] q = (next (m p) = q \<and> prev (m q) = p)"
| "chain m p (x # xs) q = (next (m p) = x \<and> prev (m x) = p \<and> chain m x xs q)"

definition ring :: "(ptr \<Rightarrow> buf) \<Rightarrow> ptr \<Rightarrow> ptr list \<Rightarrow> bool" where
  "ring m lh xs = (chain m lh xs lh \<and> lh \<notin> set xs \<and> distinct xs)"

text \<open>
  The slot a lookup of \<open>(d, n)\<close> finds: the first slot of the bucket of \<open>n\<close> with
  that identity.
\<close>

definition cached :: "bstate \<Rightarrow> u32 \<Rightarrow> u32 \<Rightarrow> ptr option" where
  "cached s d n =
     (case list_of s (HashHead (nat (hash (sint n)))) of
        None \<Rightarrow> None
      | Some xs \<Rightarrow> find (\<lambda>b. dev (mem s b) = d \<and> blockno (mem s b) = n) xs)"


text \<open>Everything a node holds but its two links.\<close>

definition payload :: "buf \<Rightarrow> buf" where
  "payload x = x\<lparr>prev := Null, next := Null\<rparr>"

subsection \<open>Well-formed states\<close>

text \<open>
  \<open>linked m L\<close>: \<open>L\<close> gives the members of every list, each list is a ring through
  its head, no node is in two lists, and only slots are members.
\<close>

definition linked :: "(ptr \<Rightarrow> buf) \<Rightarrow> (ptr \<Rightarrow> ptr list) \<Rightarrow> bool" where
  "linked m L \<longleftrightarrow>
     (\<forall>lh\<in>heads. ring m lh (L lh)) \<and>
     (\<forall>lh\<in>heads. \<forall>lh'\<in>heads. lh \<noteq> lh' \<longrightarrow> set (L lh) \<inter> set (L lh') = {}) \<and>
     (\<forall>lh\<in>heads. \<forall>b\<in>set (L lh). \<exists>i. b = Cache i)"

text \<open>
  \<open>wellformed nbuf s L\<close> adds that the \<open>nbuf\<close> slots are exactly the members of the
  lists, that a slot in bucket \<open>h\<close> has a block number that hashes to \<open>h\<close>, and that a
  slot in the free list has no reference and no holder.
\<close>

definition wellformed :: "nat \<Rightarrow> bstate \<Rightarrow> (ptr \<Rightarrow> ptr list) \<Rightarrow> bool" where
  "wellformed nbuf s L \<longleftrightarrow>
     linked (mem s) L \<and>
     (\<Union>lh\<in>heads. set (L lh)) = Cache ` {..<nbuf} \<and>
     (\<forall>h<NHASH. \<forall>b\<in>set (L (HashHead h)). hash (sint (blockno (mem s b))) = int h) \<and>
     (\<forall>b\<in>set (L FreelistHead). refcnt (mem s b) = 0 \<and> lock (mem s b) = None)"

text \<open>The lists after \<open>binit\<close>: every slot in the free list, the last one first.\<close>

definition init_lists :: "nat \<Rightarrow> ptr \<Rightarrow> ptr list" where
  "init_lists k = (\<lambda>_. [])(FreelistHead := rev (map Cache [0..<k]))"

text \<open>The lists after \<open>b\<close> went from the list of \<open>src\<close> to the front of the list of \<open>dst\<close>.\<close>

definition moved :: "ptr \<Rightarrow> ptr \<Rightarrow> ptr \<Rightarrow> (ptr \<Rightarrow> ptr list) \<Rightarrow> ptr \<Rightarrow> ptr list" where
  "moved b src dst L =
     (let L1 = L(src := remove1 b (L src)) in L1(dst := b # L1 dst))"

text \<open>
  The same, read off the store alone: every head heads a ring, every slot is a member of
  exactly one of the lists, the lists hold slots only, a slot in bucket \<open>h\<close> hashes to
  \<open>h\<close>, and a slot in the free list has reference count zero and no holder.
\<close>

definition cache_inv :: "nat \<Rightarrow> bstate \<Rightarrow> bool" where
  "cache_inv nbuf s \<longleftrightarrow>
     (\<forall>lh\<in>heads. \<exists>xs. list_of s lh = Some xs \<and> ring (mem s) lh xs) \<and>
     (\<forall>i<nbuf. \<exists>!lh. lh \<in> heads \<and> Cache i \<in> members s lh) \<and>
     (\<forall>lh\<in>heads. members s lh \<subseteq> Cache ` {..<nbuf}) \<and>
     (\<forall>h<NHASH. \<forall>b\<in>members s (HashHead h). hash (sint (blockno (mem s b))) = int h) \<and>
     (\<forall>b\<in>members s FreelistHead. refcnt (mem s b) = 0 \<and> lock (mem s b) = None)"

text \<open>\<open>b\<close> points into \<open>cache[0 .. nbuf - 1]\<close>.\<close>

fun slot :: "nat \<Rightarrow> ptr \<Rightarrow> bool" where
  "slot nbuf (Cache i) = (i < nbuf)"
| "slot nbuf _ = False"

text \<open>
  The calls of a run in which each call is made when the one before has returned: the
  client passes pointers to slots, and it pins or unpins a slot only while the slot is
  referenced (the interface comment of bio.c: a buffer is obtained from \<open>bread\<close> and
  not used after \<open>brelse\<close>).  The test looks at the count alone; whether an unpin
  undoes a pin is what \<open>reachable\<close> below keeps track of.
\<close>

fun allowed :: "nat \<Rightarrow> call \<Rightarrow> bstate \<Rightarrow> bool" where
  "allowed nbuf (Bread p d n) s = True"
| "allowed nbuf (Bwrite p b) s = slot nbuf b"
| "allowed nbuf (Brelse p b) s = slot nbuf b"
| "allowed nbuf (Bpin b) s = (slot nbuf b \<and> refcnt (mem s b) \<noteq> 0)"
| "allowed nbuf (Bunpin b) s = (slot nbuf b \<and> refcnt (mem s b) \<noteq> 0)"

text \<open>A sequence of such calls, each of which returns.\<close>

fun legal :: "nat \<Rightarrow> call list \<Rightarrow> bstate \<Rightarrow> bool" where
  "legal nbuf [] s = True"
| "legal nbuf (c # cs) s =
     (allowed nbuf c s \<and> (case step c s of Inl e \<Rightarrow> False | Inr s' \<Rightarrow> legal nbuf cs s'))"

text \<open>The state a sequence of calls ends in (the start state if a call does not return).\<close>

definition state_after :: "call list \<Rightarrow> bstate \<Rightarrow> bstate" where
  "state_after cs s = (case run cs s of Inl e \<Rightarrow> s | Inr s' \<Rightarrow> s')"

text \<open>The members of a list, the empty list when the traversal does not end.\<close>

definition lists_of :: "bstate \<Rightarrow> ptr \<Rightarrow> ptr list" where
  "lists_of s lh = (case list_of s lh of None \<Rightarrow> [] | Some xs \<Rightarrow> xs)"

subsection \<open>The states the cache goes through\<close>

text \<open>
  A fetch that is in \<open>acquiresleep\<close>: process \<open>who\<close> has done \<open>bget_enter\<close> for
  block \<open>want_blockno\<close> of device \<open>want_dev\<close>, which gave it slot \<open>place\<close>, and
  has not yet got the content access of that slot.
\<close>

datatype sleeper = Sleeper (who: pid) (place: ptr) (want_dev: u32) (want_blockno: u32)

text \<open>The number of fetches that wait for the content access of slot \<open>b\<close>.\<close>

definition sleepers :: "sleeper list \<Rightarrow> ptr \<Rightarrow> nat" where
  "sleepers sl b = length (filter (\<lambda>e. place e = b) sl)"

text \<open>
  The 32-bit reference count of the slot that holds block \<open>(d, n)\<close>, if there is one,
  is not at its largest value: one more reference does not wrap it to zero.
\<close>

definition room :: "bstate \<Rightarrow> u32 \<Rightarrow> u32 \<Rightarrow> bool" where
  "room s d n = (case cached s d n of None \<Rightarrow> True | Some b \<Rightarrow> refcnt (mem s b) \<noteq> - 1)"

text \<open>
  \<open>reachable nbuf s pn sl\<close>: the cache can be in state \<open>s\<close> with \<open>pn b\<close> pins of
  slot \<open>b\<close> not yet undone and the fetches \<open>sl\<close> waiting in \<open>acquiresleep\<close>.  It
  starts with \<open>binit\<close> on memory with zero reference counts.  The steps are those of
  clients that keep to the interface of bio.c, in any interleaving: a fetch that runs
  from call to return (\<open>fetch\<close>); the first part of a fetch, up to
  \<open>acquiresleep\<close> (\<open>enter\<close>), and the rest of a fetch that waits there, taken at
  any later time at which the slot is free (\<open>wake\<close>), with the steps of other
  processes in between; \<open>bwrite\<close> and \<open>brelse\<close> of a slot; \<open>bpin\<close> of a slot that
  is referenced; \<open>bunpin\<close> of a slot that has a pin not yet undone.  No reference is
  taken that would wrap the 32-bit count.  A call that panics or faults has no successor
  state.  The spinlocks make the part of an operation between \<open>acquire\<close> and
  \<open>release\<close> one step, and only the holder of a slot's content access touches its
  content and validity flag; \<open>brelse\<close>, which gives up the content access and then
  takes the bucket lock, is one step.
\<close>

inductive reachable :: "nat \<Rightarrow> bstate \<Rightarrow> (ptr \<Rightarrow> nat) \<Rightarrow> sleeper list \<Rightarrow> bool"
  for nbuf where
  init: "\<forall>i<nbuf. refcnt (mem s0 (Cache i)) = 0 \<Longrightarrow>
         reachable nbuf (binit nbuf s0) (\<lambda>_. 0) []"
| fetch: "reachable nbuf s pn sl \<Longrightarrow> room s d n \<Longrightarrow> bread p d n s = Inr (b, s') \<Longrightarrow>
          reachable nbuf s' pn sl"
| enter: "reachable nbuf s pn sl \<Longrightarrow> room s d n \<Longrightarrow> bget_enter d n s = Inr (b, s') \<Longrightarrow>
          reachable nbuf s' pn (Sleeper p b d n # sl)"
| wake: "reachable nbuf s pn sl \<Longrightarrow> Sleeper p b d n \<in> set sl \<Longrightarrow>
         bread_wake p b s = Inr (b', s') \<Longrightarrow>
         reachable nbuf s' pn (remove1 (Sleeper p b d n) sl)"
| flush: "reachable nbuf s pn sl \<Longrightarrow> slot nbuf b \<Longrightarrow> bwrite p b s = Inr s' \<Longrightarrow>
          reachable nbuf s' pn sl"
| release: "reachable nbuf s pn sl \<Longrightarrow> slot nbuf b \<Longrightarrow> brelse p b s = Inr s' \<Longrightarrow>
            reachable nbuf s' pn sl"
| pin: "reachable nbuf s pn sl \<Longrightarrow> slot nbuf b \<Longrightarrow> refcnt (mem s b) \<noteq> 0 \<Longrightarrow>
        refcnt (mem s b) \<noteq> - 1 \<Longrightarrow> bpin b s = Inr s' \<Longrightarrow>
        reachable nbuf s' (pn(b := Suc (pn b))) sl"
| unpin: "reachable nbuf s pn sl \<Longrightarrow> slot nbuf b \<Longrightarrow> 0 < pn b \<Longrightarrow>
          bunpin b s = Inr s' \<Longrightarrow> reachable nbuf s' (pn(b := pn b - 1)) sl"

text \<open>
  The reference count of every slot is the number of its references: the pins not yet
  undone, the fetches that wait for it, and its holder.  Every waiting fetch waits for a
  slot that has the identity it asked for.
\<close>

definition counted :: "nat \<Rightarrow> bstate \<Rightarrow> (ptr \<Rightarrow> nat) \<Rightarrow> sleeper list \<Rightarrow> bool" where
  "counted nbuf s pn sl \<longleftrightarrow>
     (\<forall>i<nbuf. unat (refcnt (mem s (Cache i))) =
        pn (Cache i) + sleepers sl (Cache i) + (if lock (mem s (Cache i)) = None then 0 else 1)) \<and>
     (\<forall>e\<in>set sl. slot nbuf (place e) \<and> dev (mem s (place e)) = want_dev e \<and>
        blockno (mem s (place e)) = want_blockno e)"

subsection \<open>Observing runs\<close>

text \<open>A device whose blocks are all empty, for concrete runs.\<close>

definition blank_disk :: "u32 \<times> u32 \<Rightarrow> bytes" where
  "blank_disk = (\<lambda>_. [])"

text \<open>What \<open>f\<close> reads in the state a sequence of calls ends in, or the error that stopped it.\<close>

definition observe :: "(bstate \<Rightarrow> 'a) \<Rightarrow> call list \<Rightarrow> bstate \<Rightarrow> error + 'a" where
  "observe f cs s = map_sum id f (run cs s)"

definition refcnt_of :: "ptr \<Rightarrow> bstate \<Rightarrow> u32" where
  "refcnt_of b s = refcnt (mem s b)"

text \<open>A request \<open>(p, d, n)\<close>: process \<open>p\<close> fetches block \<open>n\<close> of device \<open>d\<close>.\<close>

fun fetch :: "pid \<times> u32 \<times> u32 \<Rightarrow> call" where
  "fetch (p, d, n) = Bread p d n"

text \<open>
  The largest number of spinlocks the calling thread holds at once while the events
  happen, \<open>held\<close> being the locks it holds before.
\<close>

fun held_max :: "spinlock list \<Rightarrow> lock_event list \<Rightarrow> nat" where
  "held_max held [] = length held"
| "held_max held (Acquire l # es) = max (length held) (held_max (l # held) es)"
| "held_max held (Release l # es) = max (length held) (held_max (remove1 l held) es)"

text \<open>The two shapes of spinlock use: the bucket lock alone, and the free-list lock inside it.\<close>

definition bucket_only :: "nat \<Rightarrow> lock_event list" where
  "bucket_only h = [Acquire (BucketLock h), Release (BucketLock h)]"

definition bucket_then_pool :: "nat \<Rightarrow> lock_event list" where
  "bucket_then_pool h =
     [Acquire (BucketLock h), Acquire FreelistLock, Release FreelistLock, Release (BucketLock h)]"

text \<open>
  Concrete states: a cache of two slots after \<open>binit\<close>; the same after process 1 fetched
  block 5 of device 1; after process 1 also pinned the slot and released it; after
  processes 1 and 2 fetched blocks 5 and 6; after both slots were pinned while in
  the free list; after process 1 fetched block 5 and the slot was unpinned with no pin to
  undo; with process 1 holding block 5 and a second fetch of it suspended; and the same
  after process 1 released the slot.
\<close>

definition s_init :: bstate where
  "s_init = binit 2 (boot [] blank_disk)"

definition s_held :: bstate where
  "s_held = state_after [Bread 1 1 5] s_init"

definition s_pinned :: bstate where
  "s_pinned = state_after [Bread 1 1 5, Bpin (Cache 1), Brelse 1 (Cache 1)] s_init"

definition s_two :: bstate where
  "s_two = state_after [Bread 1 1 5, Bread 2 1 6] s_init"

definition s_stuck :: bstate where
  "s_stuck = state_after [Bpin (Cache 0), Bpin (Cache 1)] s_init"




declare bget_scan.simps [code] bget_free.simps [code] walk.simps [code]

section \<open>Properties of the primitives\<close>

subsection \<open>Projections of the primitive updates\<close>

lemma upd_simps [simp]:
  "mem (upd b f s) = (mem s)(b := f (mem s b))"
  "disk (upd b f s) = disk s"
  "io (upd b f s) = io s"
  "spin (upd b f s) = spin s"
  by (simp_all add: upd_def)

lemma acquire_simps [simp]:
  "mem (acquire l s) = mem s"
  "disk (acquire l s) = disk s"
  "io (acquire l s) = io s"
  "spin (acquire l s) = spin s @ [Acquire l]"
  by (simp_all add: acquire_def)

lemma release_simps [simp]:
  "mem (release l s) = mem s"
  "disk (release l s) = disk s"
  "io (release l s) = io s"
  "spin (release l s) = spin s @ [Release l]"
  by (simp_all add: release_def)

lemma unlink_simps [simp]:
  "disk (unlink b s) = disk s"
  "io (unlink b s) = io s"
  "spin (unlink b s) = spin s"
  by (simp_all add: unlink_def Let_def)

lemma link_front_simps [simp]:
  "disk (link_front lh b s) = disk s"
  "io (link_front lh b s) = io s"
  "spin (link_front lh b s) = spin s"
  by (simp_all add: link_front_def Let_def)

lemma payload_fields [simp]:
  "valid (payload x) = valid x"
  "dev (payload x) = dev x"
  "blockno (payload x) = blockno x"
  "lock (payload x) = lock x"
  "refcnt (payload x) = refcnt x"
  "data (payload x) = data x"
  by (simp_all add: payload_def)

lemma payload_eqD:
  "payload x = payload y \<Longrightarrow>
     valid x = valid y \<and> dev x = dev y \<and> blockno x = blockno y \<and> lock x = lock y \<and>
     refcnt x = refcnt y \<and> data x = data y"
  by (metis payload_fields)

lemma payload_unlink [simp]: "payload (mem (unlink b s) x) = payload (mem s x)"
  by (simp add: unlink_def Let_def payload_def)

lemma payload_link_front [simp]: "payload (mem (link_front lh b s) x) = payload (mem s x)"
  by (simp add: link_front_def Let_def payload_def)

lemma next_unlink:
  "next (mem (unlink b s) x) =
     (if x = prev (mem s b) then next (mem s b) else next (mem s x))"
  by (simp add: unlink_def Let_def)

lemma prev_unlink:
  "prev (mem (unlink b s) x) =
     (if x = next (mem s b) then prev (mem s b) else prev (mem s x))"
  by (simp add: unlink_def Let_def)

lemma next_link_front:
  "next (mem (link_front lh b s) x) =
     (if x = lh then b else if x = b then next (mem s lh) else next (mem s x))"
  by (simp add: link_front_def Let_def)

lemma prev_link_front:
  "prev (mem (link_front lh b s) x) =
     (if x = next (mem s lh) then b else if x = b then lh else prev (mem s x))"
  by (simp add: link_front_def Let_def)

subsection \<open>Chains\<close>

lemma chain_append:
  "chain m p (xs @ y # ys) q = (chain m p xs y \<and> chain m y ys q)"
  by (induction xs arbitrary: p) auto

lemma chain_frame:
  "\<forall>x\<in>set (p # xs). next (m' x) = next (m x) \<Longrightarrow>
   \<forall>x\<in>set (xs @ [q]). prev (m' x) = prev (m x) \<Longrightarrow>
   chain m' p xs q = chain m p xs q"
  by (induction xs arbitrary: p) auto

lemma chain_next: "chain m p xs q \<Longrightarrow> next (m p) = hd (xs @ [q])"
  by (cases xs) auto

lemma chain_prev: "chain m p xs q \<Longrightarrow> prev (m q) = last (p # xs)"
  by (induction xs arbitrary: p) auto

lemma walk_chain:
  "chain m p xs lh \<Longrightarrow> lh \<notin> set xs \<Longrightarrow> walk (\<lambda>x. next (m x)) lh (next (m p)) = Some xs"
proof (induction xs arbitrary: p)
  case Nil
  then show ?case by (simp add: walk.simps)
next
  case (Cons x xs)
  then have "walk (\<lambda>x. next (m x)) lh (next (m x)) = Some xs" by simp
  with Cons.prems show ?case by (subst walk.simps) auto
qed

lemma walk_SomeD:
  "walk nx lh b = Some xs \<Longrightarrow>
     (b = lh \<and> xs = []) \<or> (b \<noteq> lh \<and> (\<exists>ys. walk nx lh (nx b) = Some ys \<and> xs = b # ys))"
  by (subst (asm) walk.simps) (auto split: if_splits simp: bind_eq_Some_conv)

lemma walk_bget_scan:
  "walk (\<lambda>x. next (m x)) lh b = Some xs \<Longrightarrow>
   bget_scan m lh d n b = Some (find (\<lambda>b. dev (m b) = d \<and> blockno (m b) = n) xs)"
proof (induction xs arbitrary: b)
  case Nil
  then have "b = lh" by (auto dest: walk_SomeD)
  then show ?case by (subst bget_scan.simps) simp
next
  case (Cons x xs)
  from walk_SomeD [OF Cons.prems]
  have b: "b \<noteq> lh" "x = b" "walk (\<lambda>x. next (m x)) lh (next (m b)) = Some xs" by auto
  from Cons.IH [OF b(3)] b(1,2) show ?case by (subst bget_scan.simps) simp
qed

lemma walk_bget_free:
  "walk (\<lambda>x. next (m x)) FreelistHead b = Some xs \<Longrightarrow>
   bget_free m b = Some (find (\<lambda>b. refcnt (m b) = 0) xs)"
proof (induction xs arbitrary: b)
  case Nil
  then have "b = FreelistHead" by (auto dest: walk_SomeD)
  then show ?case by (subst bget_free.simps) simp
next
  case (Cons x xs)
  from walk_SomeD [OF Cons.prems]
  have b: "b \<noteq> FreelistHead" "x = b" "walk (\<lambda>x. next (m x)) FreelistHead (next (m b)) = Some xs"
    by auto
  from Cons.IH [OF b(3)] b(1,2) show ?case by (subst bget_free.simps) simp
qed

lemma bget_scan_chain:
  "chain m p xs lh \<Longrightarrow> lh \<notin> set xs \<Longrightarrow>
   bget_scan m lh d n (next (m p)) = Some (find (\<lambda>b. dev (m b) = d \<and> blockno (m b) = n) xs)"
proof (induction xs arbitrary: p)
  case Nil
  then show ?case by (simp add: bget_scan.simps)
next
  case (Cons x xs)
  then have "bget_scan m lh d n (next (m x)) =
      Some (find (\<lambda>b. dev (m b) = d \<and> blockno (m b) = n) xs)" by simp
  with Cons.prems show ?case by (subst bget_scan.simps) auto
qed

lemma bget_free_chain:
  "chain m p xs FreelistHead \<Longrightarrow> FreelistHead \<notin> set xs \<Longrightarrow>
   bget_free m (next (m p)) = Some (find (\<lambda>b. refcnt (m b) = 0) xs)"
proof (induction xs arbitrary: p)
  case Nil
  then show ?case by (simp add: bget_free.simps)
next
  case (Cons x xs)
  then have "bget_free m (next (m x)) = Some (find (\<lambda>b. refcnt (m b) = 0) xs)" by simp
  with Cons.prems show ?case by (subst bget_free.simps) auto
qed

lemma ring_list_of: "ring (mem s) lh xs \<Longrightarrow> list_of s lh = Some xs"
  by (simp add: ring_def list_of_def walk_chain)

subsection \<open>Unlinking and linking\<close>

lemma chain_unlink:
  assumes "chain (mem s) p (as @ b # bs) q"
    and "distinct (p # as @ b # bs)" and "q \<notin> set (as @ b # bs)"
  shows "chain (mem (unlink b s)) p (as @ bs) q"
  using assms
proof (induction as arbitrary: p)
  case Nil
  show ?case
  proof (cases bs)
    case Nil
    with Nil.prems show ?thesis by (auto simp: next_unlink prev_unlink)
  next
    case (Cons c cs)
    with Nil.prems have c: "next (mem s b) = c" "prev (mem s b) = p" "chain (mem s) c cs q"
      by auto
    from Nil.prems Cons have ne: "c \<noteq> p" "c \<noteq> b" "p \<noteq> b" "p \<notin> set cs" "c \<notin> set cs" "q \<noteq> c"
      by auto
    have "chain (mem (unlink b s)) c cs q = chain (mem s) c cs q"
      using c ne by (intro chain_frame) (auto simp: next_unlink prev_unlink)
    with c ne Cons show ?thesis by (simp add: next_unlink prev_unlink)
  qed
next
  case (Cons a as)
  then have ch: "chain (mem s) a (as @ b # bs) q" and l: "next (mem s p) = a" "prev (mem s a) = p"
    by auto
  from Cons.prems ch have ih: "chain (mem (unlink b s)) a (as @ bs) q"
    by (intro Cons.IH) auto
  from ch have "chain (mem s) a as b" "chain (mem s) b bs q" by (simp_all add: chain_append)
  then have nb: "prev (mem s b) = last (a # as)" "next (mem s b) = hd (bs @ [q])"
    by (simp_all only: chain_prev chain_next)
  have "last (a # as) \<in> set (a # as)" by (rule last_in_set) simp
  with Cons.prems have 1: "prev (mem s b) \<noteq> p" unfolding nb by auto
  have "hd (bs @ [q]) \<in> set (bs @ [q])" by (rule hd_in_set) simp
  with Cons.prems have 2: "next (mem s b) \<noteq> a" unfolding nb by auto
  from 1 2 l ih show ?case by (simp add: next_unlink prev_unlink)
qed

lemma ring_unlink:
  assumes "ring (mem s) lh (as @ b # bs)"
  shows "ring (mem (unlink b s)) lh (as @ bs)"
  using assms chain_unlink [of s lh as b bs lh] by (auto simp: ring_def)

lemma ring_frame:
  "\<forall>x\<in>set (lh # xs). next (m' x) = next (m x) \<and> prev (m' x) = prev (m x) \<Longrightarrow>
   ring m' lh xs = ring m lh xs"
  unfolding ring_def using chain_frame [of lh xs m' m lh] by auto

lemma ring_links_in:
  assumes "ring m lh xs" and "b \<in> set xs"
  shows "next (m b) \<in> set (lh # xs)" and "prev (m b) \<in> set (lh # xs)"
proof -
  from assms(2) obtain as bs where xs: "xs = as @ b # bs" by (auto dest: split_list)
  with assms(1) have "chain m lh as b" "chain m b bs lh" by (simp_all add: ring_def chain_append)
  then have nb: "prev (m b) = last (lh # as)" "next (m b) = hd (bs @ [lh])"
    by (simp_all only: chain_prev chain_next)
  have "last (lh # as) \<in> set (lh # as)" by (rule last_in_set) simp
  then show "prev (m b) \<in> set (lh # xs)" unfolding nb xs by auto
  have "hd (bs @ [lh]) \<in> set (bs @ [lh])" by (rule hd_in_set) simp
  then show "next (m b) \<in> set (lh # xs)" unfolding nb xs by auto
qed

lemma ring_head_next: "ring m lh xs \<Longrightarrow> next (m lh) \<in> set (lh # xs)"
  by (cases xs) (auto simp: ring_def)

lemma ring_link_front:
  assumes "ring (mem s) lh xs" and "b \<notin> set (lh # xs)"
  shows "ring (mem (link_front lh b s)) lh (b # xs)"
proof (cases xs)
  case Nil
  with assms show ?thesis by (auto simp: ring_def next_link_front prev_link_front)
next
  case (Cons c cs)
  with assms have c: "next (mem s lh) = c" "prev (mem s c) = lh" "chain (mem s) c cs lh"
    and ne: "c \<noteq> lh" "c \<noteq> b" "b \<noteq> lh" "b \<notin> set cs" "lh \<notin> set cs" "c \<notin> set cs"
    by (auto simp: ring_def)
  have "chain (mem (link_front lh b s)) c cs lh = chain (mem s) c cs lh"
    using c ne by (intro chain_frame) (auto simp: next_link_front prev_link_front)
  with c ne Cons assms show ?thesis by (simp add: ring_def next_link_front prev_link_front)
qed

lemma heads_not_Cache: "lh \<in> heads \<Longrightarrow> lh \<noteq> Cache i"
  by (auto simp: heads_def)

lemma struct_ring: "linked m L \<Longrightarrow> lh \<in> heads \<Longrightarrow> ring m lh (L lh)"
  by (simp add: linked_def)

lemma struct_Cache: "linked m L \<Longrightarrow> lh \<in> heads \<Longrightarrow> b \<in> set (L lh) \<Longrightarrow> \<exists>i. b = Cache i"
  by (simp add: linked_def)

lemma struct_disj:
  "linked m L \<Longrightarrow> lh \<in> heads \<Longrightarrow> lh' \<in> heads \<Longrightarrow> b \<in> set (L lh) \<Longrightarrow> b \<in> set (L lh') \<Longrightarrow> lh = lh'"
  by (auto simp: linked_def)

lemma struct_head_notin: "linked m L \<Longrightarrow> lh \<in> heads \<Longrightarrow> lh' \<in> heads \<Longrightarrow> lh' \<notin> set (L lh)"
  by (auto dest: struct_Cache heads_not_Cache)

lemma struct_frame:
  assumes "linked m L"
    and "\<And>lh x. lh \<in> heads \<Longrightarrow> x \<in> set (lh # L lh) \<Longrightarrow>
          next (m' x) = next (m x) \<and> prev (m' x) = prev (m x)"
  shows "linked m' L"
proof -
  have "ring m' lh (L lh)" if "lh \<in> heads" for lh
  proof -
    have "ring m' lh (L lh) = ring m lh (L lh)"
      using assms(2) [OF that] by (intro ring_frame) blast
    with assms(1) that show ?thesis by (simp add: linked_def)
  qed
  with assms(1) show ?thesis by (simp add: linked_def)
qed

lemma struct_upd:
  "linked m L \<Longrightarrow> next v = next (m b) \<Longrightarrow> prev v = prev (m b) \<Longrightarrow> linked (m(b := v)) L"
  by (erule struct_frame) simp

lemma distinct_remove1_mid: "distinct (as @ b # bs) \<Longrightarrow> remove1 b (as @ b # bs) = as @ bs"
  by (simp add: remove1_append)

lemma struct_unlink:
  assumes st: "linked (mem s) L" and src: "src \<in> heads" and b: "b \<in> set (L src)"
  shows "linked (mem (unlink b s)) (L(src := remove1 b (L src)))"
proof -
  let ?L = "L(src := remove1 b (L src))"
  from st src have r: "ring (mem s) src (L src)" by (rule struct_ring)
  from b obtain as bs where xs: "L src = as @ b # bs" by (auto dest: split_list)
  from r xs have d: "distinct (as @ b # bs)" by (simp add: ring_def)
  have rm: "remove1 b (L src) = as @ bs" unfolding xs using d by (rule distinct_remove1_mid)
  from r b have nb: "next (mem s b) \<in> set (src # L src)" "prev (mem s b) \<in> set (src # L src)"
    by (rule ring_links_in)+
  have ring': "ring (mem (unlink b s)) lh (?L lh)" if lh: "lh \<in> heads" for lh
  proof (cases "lh = src")
    case True
    from r have "ring (mem (unlink b s)) src (as @ bs)" unfolding xs by (rule ring_unlink)
    with True rm show ?thesis by simp
  next
    case False
    from st lh have rl: "ring (mem s) lh (L lh)" by (rule struct_ring)
    have out: "x \<noteq> next (mem s b) \<and> x \<noteq> prev (mem s b)" if "x \<in> set (lh # L lh)" for x
    proof -
      from that False st lh src have "x \<notin> set (src # L src)"
        using struct_head_notin [OF st lh src] struct_head_notin [OF st src lh]
          struct_disj [OF st lh src] by auto
      with nb show ?thesis by auto
    qed
    have "ring (mem (unlink b s)) lh (L lh) = ring (mem s) lh (L lh)"
      by (intro ring_frame) (use out in \<open>auto simp: next_unlink prev_unlink\<close>)
    with rl False show ?thesis by simp
  qed
  have sub: "set (?L lh) \<subseteq> set (L lh)" for lh
    using set_remove1_subset [of b "L src"] by auto
  have disj: "set (?L lh) \<inter> set (?L lh') = {}" if "lh \<in> heads" "lh' \<in> heads" "lh \<noteq> lh'" for lh lh'
  proof -
    from st that have "set (L lh) \<inter> set (L lh') = {}" by (simp add: linked_def)
    with sub [of lh] sub [of lh'] show ?thesis by blast
  qed
  have cache: "\<exists>i. x = Cache i" if "lh \<in> heads" "x \<in> set (?L lh)" for lh x
    using struct_Cache [OF st that(1)] sub [of lh] that(2) by blast
  from ring' disj cache show ?thesis unfolding linked_def by blast
qed

lemma struct_link_front:
  assumes st: "linked (mem s) L" and dst: "dst \<in> heads"
    and b: "\<And>lh. lh \<in> heads \<Longrightarrow> Cache i \<notin> set (L lh)"
  shows "linked (mem (link_front dst (Cache i) s)) (L(dst := Cache i # L dst))"
proof -
  let ?b = "Cache i"
  let ?L = "L(dst := ?b # L dst)"
  from st dst have r: "ring (mem s) dst (L dst)" by (rule struct_ring)
  then have hn: "next (mem s dst) \<in> set (dst # L dst)" by (rule ring_head_next)
  from dst have bd: "?b \<noteq> dst" using heads_not_Cache by blast
  have ring': "ring (mem (link_front dst ?b s)) lh (?L lh)" if lh: "lh \<in> heads" for lh
  proof (cases "lh = dst")
    case True
    from r have "ring (mem (link_front dst ?b s)) dst (?b # L dst)"
      by (rule ring_link_front) (use bd b [OF dst] in auto)
    with True show ?thesis by simp
  next
    case False
    from st lh have rl: "ring (mem s) lh (L lh)" by (rule struct_ring)
    have out: "x \<noteq> dst \<and> x \<noteq> ?b \<and> x \<noteq> next (mem s dst)" if "x \<in> set (lh # L lh)" for x
    proof -
      from that False have "x \<notin> set (dst # L dst)"
        using struct_head_notin [OF st lh dst] struct_head_notin [OF st dst lh]
          struct_disj [OF st lh dst] by auto
      moreover from that have "x \<noteq> ?b" using b [OF lh] heads_not_Cache [OF lh] by auto
      ultimately show ?thesis using hn by auto
    qed
    have "ring (mem (link_front dst ?b s)) lh (L lh) = ring (mem s) lh (L lh)"
      by (intro ring_frame) (use out in \<open>auto simp: next_link_front prev_link_front\<close>)
    with rl False show ?thesis by simp
  qed
  have disj: "set (?L lh) \<inter> set (?L lh') = {}" if "lh \<in> heads" "lh' \<in> heads" "lh \<noteq> lh'" for lh lh'
  proof -
    from st that have "set (L lh) \<inter> set (L lh') = {}" by (simp add: linked_def)
    with b [OF that(1)] b [OF that(2)] that(3) show ?thesis by auto
  qed
  have cache: "\<exists>j. x = Cache j" if "lh \<in> heads" "x \<in> set (?L lh)" for lh x
    using struct_Cache [OF st that(1)] that(2) by (auto split: if_splits)
  from ring' disj cache show ?thesis unfolding linked_def by blast
qed

lemma remove1_notin: "distinct xs \<Longrightarrow> b \<notin> set (remove1 b xs)"
  by simp

lemma struct_unlink_notin:
  assumes st: "linked m L" and src: "src \<in> heads" and b: "b \<in> set (L src)" and lh: "lh \<in> heads"
  shows "b \<notin> set ((L(src := remove1 b (L src))) lh)"
proof (cases "lh = src")
  case True
  from st src have "distinct (L src)" by (auto dest: struct_ring simp: ring_def)
  with True show ?thesis by simp
next
  case False
  with struct_disj [OF st lh src _ b] show ?thesis by auto
qed

lemma union_unlink:
  assumes st: "linked m L" and src: "src \<in> heads" and b: "b \<in> set (L src)"
  shows "(\<Union>lh\<in>heads. set ((L(src := remove1 b (L src))) lh)) = (\<Union>lh\<in>heads. set (L lh)) - {b}"
proof -
  from st src have d: "distinct (L src)" by (auto dest: struct_ring simp: ring_def)
  have "set ((L(src := remove1 b (L src))) lh) = set (L lh) - {b}" if "lh \<in> heads" for lh
  proof (cases "lh = src")
    case True
    with d show ?thesis by simp
  next
    case False
    with struct_disj [OF st that src _ b] show ?thesis by auto
  qed
  then show ?thesis by auto
qed

lemma union_link_front:
  "dst \<in> heads \<Longrightarrow>
   (\<Union>lh\<in>heads. set ((L(dst := b # L dst)) lh)) = insert b (\<Union>lh\<in>heads. set (L lh))"
  by (auto split: if_splits)

lemma payload_upd:
  "payload (f (mem s b)) = payload (mem s b) \<Longrightarrow> payload (mem (upd b f s) x) = payload (mem s x)"
  by simp

lemma payload_update [simp]:
  "payload (x\<lparr>next := q\<rparr>) = payload x"
  "payload (x\<lparr>prev := q\<rparr>) = payload x"
  "payload (x\<lparr>valid := v\<rparr>) = (payload x)\<lparr>valid := v\<rparr>"
  "payload (x\<lparr>dev := d\<rparr>) = (payload x)\<lparr>dev := d\<rparr>"
  "payload (x\<lparr>blockno := n\<rparr>) = (payload x)\<lparr>blockno := n\<rparr>"
  "payload (x\<lparr>lock := l\<rparr>) = (payload x)\<lparr>lock := l\<rparr>"
  "payload (x\<lparr>refcnt := r\<rparr>) = (payload x)\<lparr>refcnt := r\<rparr>"
  "payload (x\<lparr>data := c\<rparr>) = (payload x)\<lparr>data := c\<rparr>"
  by (simp_all add: payload_def)

lemma fold_upt_Suc: "fold f [0..<Suc k] s = f k (fold f [0..<k] s)"
  by simp

lemma binit_bucket_simps [simp]:
  "disk (binit_bucket i s) = disk s"
  "io (binit_bucket i s) = io s"
  "spin (binit_bucket i s) = spin s"
  "payload (mem (binit_bucket i s) x) = payload (mem s x)"
  "next (mem (binit_bucket i s) x) = (if x = HashHead i then HashHead i else next (mem s x))"
  "prev (mem (binit_bucket i s) x) = (if x = HashHead i then HashHead i else prev (mem s x))"
  by (simp_all add: binit_bucket_def Let_def payload_def)

lemma binit_buckets:
  "disk (fold binit_bucket [0..<k] s) = disk s"
  "io (fold binit_bucket [0..<k] s) = io s"
  "spin (fold binit_bucket [0..<k] s) = spin s"
  "payload (mem (fold binit_bucket [0..<k] s) x) = payload (mem s x)"
  "next (mem (fold binit_bucket [0..<k] s) x) =
     (if x \<in> HashHead ` {..<k} then x else next (mem s x))"
  "prev (mem (fold binit_bucket [0..<k] s) x) =
     (if x \<in> HashHead ` {..<k} then x else prev (mem s x))"
  by (induction k) (auto simp: less_Suc_eq)

lemma binit_slot_simps [simp]:
  "disk (binit_slot i s) = disk s"
  "io (binit_slot i s) = io s"
  "spin (binit_slot i s) = spin s"
  "payload (mem (binit_slot i s) x) =
     (if x = Cache i then (payload (mem s x))\<lparr>lock := None\<rparr> else payload (mem s x))"
  by (simp_all add: binit_slot_def initsleeplock_def)

lemma binit_slots:
  "disk (fold binit_slot [0..<k] s) = disk s"
  "io (fold binit_slot [0..<k] s) = io s"
  "spin (fold binit_slot [0..<k] s) = spin s"
  "payload (mem (fold binit_slot [0..<k] s) x) =
     (if x \<in> Cache ` {..<k} then (payload (mem s x))\<lparr>lock := None\<rparr> else payload (mem s x))"
  by (induction k) (auto simp: less_Suc_eq)

lemma init_lists_Suc: "init_lists (Suc k) = (init_lists k)(FreelistHead := Cache k # init_lists k FreelistHead)"
  by (simp add: init_lists_def)

lemma set_init_lists: "set (init_lists k lh) = (if lh = FreelistHead then Cache ` {..<k} else {})"
  by (auto simp: init_lists_def)

lemma struct_empty:
  assumes "\<And>lh. lh \<in> heads \<Longrightarrow> next (m lh) = lh \<and> prev (m lh) = lh"
  shows "linked m (init_lists 0)"
  using assms by (simp add: linked_def init_lists_def ring_def)

lemma struct_binit_slot:
  assumes "linked (mem s) L" and "\<And>lh. lh \<in> heads \<Longrightarrow> Cache i \<notin> set (L lh)"
  shows "linked (mem (binit_slot i s)) (L(FreelistHead := Cache i # L FreelistHead))"
proof -
  from assms(1) have "linked (mem (initsleeplock (Cache i) s)) L"
    by (simp add: initsleeplock_def struct_upd)
  then show ?thesis
    unfolding binit_slot_def by (rule struct_link_front) (auto simp: heads_def assms(2))
qed

lemma struct_binit_slots:
  "linked (mem s) (init_lists 0) \<Longrightarrow> linked (mem (fold binit_slot [0..<k] s)) (init_lists k)"
proof (induction k)
  case 0
  then show ?case by simp
next
  case (Suc k)
  then have "linked (mem (fold binit_slot [0..<k] s)) (init_lists k)" by simp
  then have "linked (mem (binit_slot k (fold binit_slot [0..<k] s)))
               ((init_lists k)(FreelistHead := Cache k # init_lists k FreelistHead))"
    by (rule struct_binit_slot) (auto simp: set_init_lists)
  then show ?case by (simp only: fold_upt_Suc init_lists_Suc)
qed

lemma binit_simps [simp]:
  "disk (binit n s) = disk s"
  "io (binit n s) = io s"
  "spin (binit n s) = spin s"
  by (simp_all add: binit_def Let_def binit_slots binit_buckets)

lemma payload_binit:
  "payload (mem (binit n s) x) =
     (if x \<in> Cache ` {..<n} then (payload (mem s x))\<lparr>lock := None\<rparr> else payload (mem s x))"
  by (simp add: binit_def Let_def binit_slots binit_buckets)

lemma struct_binit: "linked (mem (binit n s)) (init_lists n)"
  unfolding binit_def Let_def
  by (rule struct_binit_slots, rule struct_empty) (auto simp: binit_buckets heads_def)

lemma payload_fieldsD:
  assumes "payload x = y"
  shows "valid x = valid y" "dev x = dev y" "blockno x = blockno y" "lock x = lock y"
    "refcnt x = refcnt y" "data x = data y"
  using assms by (auto simp: payload_def)

lemma wf_binit:
  assumes "\<And>i. i < n \<Longrightarrow> refcnt (mem s (Cache i)) = 0"
  shows "wellformed n (binit n s) (init_lists n)"
proof -
  have "refcnt (mem (binit n s) (Cache i)) = 0 \<and> lock (mem (binit n s) (Cache i)) = None"
    if "i < n" for i
    using payload_fieldsD [OF payload_binit [of n s "Cache i"]] that assms by simp
  then show ?thesis
    by (auto simp: wellformed_def struct_binit set_init_lists heads_def)
qed

lemma hash_less: "hash k < int NHASH"
proof -
  have "\<bar>k\<bar> mod int NHASH < int NHASH" by (simp add: NHASH_def)
  moreover have "0 \<le> \<bar>k\<bar> mod int NHASH" by (simp add: NHASH_def)
  ultimately show ?thesis
    unfolding hash_def by (cases "k < 0"; cases "k = 0") (simp_all add: sgn_if)
qed

lemma hash_head: "0 \<le> hash k \<Longrightarrow> HashHead (nat (hash k)) \<in> heads"
  using hash_less [of k] by (simp add: heads_def)

lemma hash_nat: "0 \<le> hash k \<Longrightarrow> nat (hash k) < NHASH"
  using hash_less [of k] by simp

lemma wf_struct: "wellformed n s L \<Longrightarrow> linked (mem s) L"
  by (simp add: wellformed_def)

lemma wf_free: "wellformed n s L \<Longrightarrow> b \<in> set (L FreelistHead) \<Longrightarrow> refcnt (mem s b) = 0 \<and> lock (mem s b) = None"
  by (simp add: wellformed_def)

lemma wf_hash:
  "wellformed n s L \<Longrightarrow> h < NHASH \<Longrightarrow> b \<in> set (L (HashHead h)) \<Longrightarrow> hash (sint (blockno (mem s b))) = int h"
  by (simp add: wellformed_def)

lemma FreelistHead_heads [simp]: "FreelistHead \<in> heads"
  by (simp add: heads_def)

lemma HashHead_heads [simp]: "HashHead h \<in> heads \<longleftrightarrow> h < NHASH"
  by (auto simp: heads_def)

lemma wf_list_of: "wellformed n s L \<Longrightarrow> lh \<in> heads \<Longrightarrow> list_of s lh = Some (L lh)"
  by (auto dest!: wf_struct struct_ring intro: ring_list_of)

lemma wf_scan:
  assumes "wellformed n s L" and "h < NHASH"
  shows "bget_scan (mem s) (HashHead h) d k (next (mem s (HashHead h))) =
           Some (find (\<lambda>b. dev (mem s b) = d \<and> blockno (mem s b) = k) (L (HashHead h)))"
proof -
  from assms have "ring (mem s) (HashHead h) (L (HashHead h))"
    by (auto dest!: wf_struct struct_ring)
  then show ?thesis by (simp add: ring_def bget_scan_chain)
qed

lemma find_all: "xs \<noteq> [] \<Longrightarrow> \<forall>x\<in>set xs. P x \<Longrightarrow> find P xs = Some (hd xs)"
  by (cases xs) auto

lemma wf_free_scan:
  assumes "wellformed n s L"
  shows "bget_free (mem s) (next (mem s FreelistHead)) =
           Some (case L FreelistHead of [] \<Rightarrow> None | b # _ \<Rightarrow> Some b)"
proof -
  from assms have "ring (mem s) FreelistHead (L FreelistHead)"
    by (auto dest!: wf_struct struct_ring)
  then have "bget_free (mem s) (next (mem s FreelistHead)) =
      Some (find (\<lambda>b. refcnt (mem s b) = 0) (L FreelistHead))"
    by (simp add: ring_def bget_free_chain)
  moreover have "find (\<lambda>b. refcnt (mem s b) = 0) (L FreelistHead) =
      (case L FreelistHead of [] \<Rightarrow> None | b # _ \<Rightarrow> Some b)"
    using wf_free [OF assms] by (cases "L FreelistHead") auto
  ultimately show ?thesis by simp
qed

text \<open>A change to the payload of one node that is in a bucket.\<close>

lemma wf_upd_bucket:
  assumes wellformed: "wellformed n s L" and h: "h < NHASH" and b: "b \<in> set (L (HashHead h))"
    and m: "mem s' = (mem s)(b := v)"
    and v: "next v = next (mem s b)" "prev v = prev (mem s b)" "blockno v = blockno (mem s b)"
  shows "wellformed n s' L"
proof -
  from wellformed have st: "linked (mem s) L" by (rule wf_struct)
  then have st': "linked (mem s') L" unfolding m using v(1,2) by (rule struct_upd)
  have "b \<notin> set (L FreelistHead)"
    using struct_disj [OF st _ _ b, of FreelistHead] h by auto
  then have f: "refcnt (((mem s)(b := v)) x) = 0 \<and> lock (((mem s)(b := v)) x) = None"
    if "x \<in> set (L FreelistHead)" for x
    using that wf_free [OF wellformed that] by auto
  have g: "hash (sint (blockno (((mem s)(b := v)) x))) = int k"
    if "k < NHASH" "x \<in> set (L (HashHead k))" for k x
    using wf_hash [OF wellformed that] v(3) by auto
  from wellformed st' f g show ?thesis
    unfolding wellformed_def m by blast
qed

lemma bget_hit_wf:
  assumes wellformed: "wellformed n s L" and h: "h < NHASH" and b: "b \<in> set (L (HashHead h))"
    and l: "lock (mem s b) = None"
  shows "\<exists>s'. bget_hit p h b s = Inr (b, s') \<and> wellformed n s' L \<and>
           mem s' = (mem s)(b := (mem s b)\<lparr>refcnt := refcnt (mem s b) + 1, lock := Some p\<rparr>) \<and>
           disk s' = disk s \<and> io s' = io s \<and> spin s' = spin s @ [Release (BucketLock h)]"
proof -
  let ?s = "upd b (\<lambda>x. x\<lparr>lock := Some p\<rparr>)
              (release (BucketLock h) (upd b (\<lambda>x. x\<lparr>refcnt := refcnt x + 1\<rparr>) s))"
  have eq: "bget_hit p h b s = Inr (b, ?s)"
    using l by (simp add: bget_hit_def acquiresleep_def)
  have m: "mem ?s = (mem s)(b := (mem s b)\<lparr>refcnt := refcnt (mem s b) + 1, lock := Some p\<rparr>)"
    by simp
  from wellformed h b m have "wellformed n ?s L" by (rule wf_upd_bucket) simp_all
  with eq m show ?thesis by simp
qed

lemma bget_hit_sleeps:
  "lock (mem s b) \<noteq> None \<Longrightarrow> bget_hit p h b s = Inl (Sleeps b)"
  by (simp add: bget_hit_def acquiresleep_def)

lemma payload_eq_iff:
  "payload x = payload y \<longleftrightarrow>
     valid x = valid y \<and> dev x = dev y \<and> blockno x = blockno y \<and> lock x = lock y \<and>
     refcnt x = refcnt y \<and> data x = data y"
  by (cases x; cases y) (auto simp: payload_def)

lemma wf_in_union: "wellformed n s L \<Longrightarrow> lh \<in> heads \<Longrightarrow> b \<in> set (L lh) \<Longrightarrow> b \<in> Cache ` {..<n}"
  unfolding wellformed_def by blast

text \<open>Moving one slot from the list of \<open>src\<close> to the front of the list of \<open>dst\<close>.\<close>

lemma union_moved:
  assumes st: "linked m L" and src: "src \<in> heads" and b: "b \<in> set (L src)" and dst: "dst \<in> heads"
  shows "(\<Union>lh\<in>heads. set (moved b src dst L lh)) = (\<Union>lh\<in>heads. set (L lh))"
proof -
  have "(\<Union>lh\<in>heads. set (moved b src dst L lh)) =
      insert b ((\<Union>lh\<in>heads. set (L lh)) - {b})"
    unfolding moved_def Let_def
    by (simp only: union_link_front [OF dst] union_unlink [OF st src b])
  also have "\<dots> = (\<Union>lh\<in>heads. set (L lh))" using src b by auto
  finally show ?thesis .
qed

lemma set_moved:
  assumes st: "linked m L" and src: "src \<in> heads" and b: "b \<in> set (L src)" and lh: "lh \<in> heads"
  shows "set (moved b src dst L lh) = (if lh = dst then insert b (set (L lh)) else set (L lh) - {b})"
proof -
  define L1 where "L1 = L(src := remove1 b (L src))"
  from st src have d: "distinct (L src)" by (auto dest: struct_ring simp: ring_def)
  have "set (L1 lh) = set (L lh) - {b}"
  proof (cases "lh = src")
    case True
    with d show ?thesis by (simp add: L1_def)
  next
    case False
    from struct_disj [OF st lh src _ b] False have "b \<notin> set (L lh)" by blast
    with False show ?thesis by (simp add: L1_def)
  qed
  moreover have "moved b src dst L lh = (if lh = dst then b # L1 lh else L1 lh)"
    by (simp add: moved_def Let_def L1_def)
  ultimately show ?thesis by (cases "lh = dst") auto
qed

lemma struct_moved:
  assumes st: "linked (mem s) L" and src: "src \<in> heads" and b: "Cache i \<in> set (L src)"
    and dst: "dst \<in> heads"
    and t: "\<And>x. next (mem t x) = next (mem (unlink (Cache i) s) x)"
           "\<And>x. prev (mem t x) = prev (mem (unlink (Cache i) s) x)"
  shows "linked (mem (link_front dst (Cache i) t)) (moved (Cache i) src dst L)"
proof -
  let ?L1 = "L(src := remove1 (Cache i) (L src))"
  from st src b have "linked (mem (unlink (Cache i) s)) ?L1" by (rule struct_unlink)
  then have "linked (mem t) ?L1" by (rule struct_frame) (simp add: t)
  then have "linked (mem (link_front dst (Cache i) t)) (?L1(dst := Cache i # ?L1 dst))"
    using dst by (rule struct_link_front) (rule struct_unlink_notin [OF st src b])
  then show ?thesis by (simp add: moved_def Let_def)
qed

lemma wf_moved:
  assumes wellformed: "wellformed n s L" and src: "src \<in> heads" and b: "b \<in> set (L src)" and dst: "dst \<in> heads"
    and st': "linked (mem s') (moved b src dst L)"
    and pl: "\<And>x. x \<noteq> b \<Longrightarrow> payload (mem s' x) = payload (mem s x)"
    and hb: "\<And>h. dst = HashHead h \<Longrightarrow> hash (sint (blockno (mem s' b))) = int h"
    and fb: "dst = FreelistHead \<Longrightarrow> refcnt (mem s' b) = 0 \<and> lock (mem s' b) = None"
  shows "wellformed n s' (moved b src dst L)"
proof -
  from wellformed have st: "linked (mem s) L" by (rule wf_struct)
  note sm = set_moved [OF st src b]
  have u: "(\<Union>lh\<in>heads. set (moved b src dst L lh)) = Cache ` {..<n}"
    using union_moved [OF st src b dst] wellformed by (simp add: wellformed_def)
  have g: "hash (sint (blockno (mem s' x))) = int k"
    if k: "k < NHASH" and x: "x \<in> set (moved b src dst L (HashHead k))" for k x
  proof (cases "x = b")
    case True
    with x sm [of "HashHead k" dst] k have "dst = HashHead k" by (auto split: if_splits)
    with True hb show ?thesis by simp
  next
    case False
    with x sm [of "HashHead k" dst] k have "x \<in> set (L (HashHead k))" by (auto split: if_splits)
    from wf_hash [OF wellformed k this] pl [OF False] show ?thesis by (simp add: payload_eq_iff)
  qed
  have f: "refcnt (mem s' x) = 0 \<and> lock (mem s' x) = None"
    if x: "x \<in> set (moved b src dst L FreelistHead)" for x
  proof (cases "x = b")
    case True
    with x sm [of FreelistHead dst] have "dst = FreelistHead" by (auto split: if_splits)
    with True fb show ?thesis by simp
  next
    case False
    with x sm [of FreelistHead dst] have "x \<in> set (L FreelistHead)" by (auto split: if_splits)
    from wf_free [OF wellformed this] pl [OF False] show ?thesis by (simp add: payload_eq_iff)
  qed
  from st' u g f show ?thesis unfolding wellformed_def by blast
qed

lemma bget_claim_wf:
  assumes wellformed: "wellformed n s L" and h: "h < NHASH" and b: "b \<in> set (L FreelistHead)"
    and k: "hash (sint k) = int h"
  shows "\<exists>s'. bget_claim p h d k b s = Inr (b, s') \<and>
           wellformed n s' (moved b FreelistHead (HashHead h) L) \<and>
           (\<forall>x. payload (mem s' x) =
              (if x = b
               then (payload (mem s b))\<lparr>dev := d, blockno := k, valid := False, refcnt := 1,
                      lock := Some p\<rparr>
               else payload (mem s x))) \<and>
           disk s' = disk s \<and> io s' = io s \<and>
           spin s' = spin s @ [Release FreelistLock, Release (BucketLock h)]"
proof -
  from wellformed have st: "linked (mem s) L" by (rule wf_struct)
  from struct_Cache [OF st _ b] obtain i where i: "b = Cache i" by auto
  from wf_free [OF wellformed b] have l: "lock (mem s b) = None" by simp
  define t where "t = upd b (\<lambda>x. x\<lparr>refcnt := 1\<rparr>) (upd b (\<lambda>x. x\<lparr>valid := False\<rparr>)
      (upd b (\<lambda>x. x\<lparr>blockno := k\<rparr>) (upd b (\<lambda>x. x\<lparr>dev := d\<rparr>)
        (release FreelistLock (unlink b s)))))"
  define u where "u = release (BucketLock h) (link_front (HashHead h) b t)"
  define s' where "s' = upd b (\<lambda>x. x\<lparr>lock := Some p\<rparr>) u"
  have pu: "payload (mem u x) =
      (if x = b then (payload (mem s b))\<lparr>dev := d, blockno := k, valid := False, refcnt := 1\<rparr>
       else payload (mem s x))" for x
    by (simp add: u_def t_def)
  then have "lock (mem u b) = None"
    using l payload_fieldsD(4) [OF pu [of b]] by simp
  then have eq: "bget_claim p h d k b s = Inr (b, s')"
    by (simp add: bget_claim_def Let_def acquiresleep_def s'_def u_def t_def)
  have ps: "payload (mem s' x) =
      (if x = b then (payload (mem s b))\<lparr>dev := d, blockno := k, valid := False, refcnt := 1,
          lock := Some p\<rparr>
       else payload (mem s x))" for x
    by (simp add: s'_def pu)
  have psb: "blockno (mem s' b) = k"
    using payload_fieldsD(3) [OF ps [of b]] by simp
  have "linked (mem (link_front (HashHead h) (Cache i) t)) (moved (Cache i) FreelistHead (HashHead h) L)"
    using st _ b [unfolded i]
    by (rule struct_moved) (simp_all add: h t_def i)
  then have "linked (mem u) (moved b FreelistHead (HashHead h) L)"
    by (simp add: u_def i)
  then have "linked (mem s') (moved b FreelistHead (HashHead h) L)"
    by (simp add: s'_def struct_upd)
  with wellformed _ b _ have "wellformed n s' (moved b FreelistHead (HashHead h) L)"
    by (rule wf_moved) (simp_all add: h ps psb k)
  moreover have "disk s' = disk s" "io s' = io s"
    "spin s' = spin s @ [Release FreelistLock, Release (BucketLock h)]"
    by (simp_all add: s'_def u_def t_def)
  ultimately show ?thesis using eq ps by blast
qed

lemma find_SomeD: "find P xs = Some b \<Longrightarrow> b \<in> set xs \<and> P b"
  by (auto simp: find_Some_iff)

lemma bget_hit_case:
  assumes wellformed: "wellformed n s L" and k: "0 \<le> hash (sint k)"
    and f: "find (\<lambda>b. dev (mem s b) = d \<and> blockno (mem s b) = k) (L (HashHead (nat (hash (sint k))))) = Some b"
    and l: "lock (mem s b) = None"
  shows "\<exists>s'. bget p d k s = Inr (b, s') \<and> wellformed n s' L \<and>
           mem s' = (mem s)(b := (mem s b)\<lparr>refcnt := refcnt (mem s b) + 1, lock := Some p\<rparr>) \<and>
           disk s' = disk s \<and> io s' = io s \<and>
           spin s' = spin s @ [Acquire (BucketLock (nat (hash (sint k)))),
                               Release (BucketLock (nat (hash (sint k))))]"
proof -
  let ?h = "nat (hash (sint k))"
  let ?s1 = "acquire (BucketLock ?h) s"
  from k have h: "?h < NHASH" by (rule hash_nat)
  from wellformed have wf1: "wellformed n ?s1 L" by (simp add: wellformed_def)
  from f have b: "b \<in> set (L (HashHead ?h))" by (auto dest: find_SomeD)
  from bget_hit_wf [OF wf1 h b, of p] l
  obtain s' where s': "bget_hit p ?h b ?s1 = Inr (b, s')" "wellformed n s' L"
    "mem s' = (mem s)(b := (mem s b)\<lparr>refcnt := refcnt (mem s b) + 1, lock := Some p\<rparr>)"
    "disk s' = disk s" "io s' = io s"
    "spin s' = spin s @ [Acquire (BucketLock ?h), Release (BucketLock ?h)]"
    by auto
  have "bget p d k s = bget_hit p ?h b ?s1"
    using k f wf_scan [OF wellformed h, of d k] by (simp add: bget_def Let_def)
  with s' show ?thesis by simp
qed

lemma bget_sleeps_case:
  assumes wellformed: "wellformed n s L" and k: "0 \<le> hash (sint k)"
    and f: "find (\<lambda>b. dev (mem s b) = d \<and> blockno (mem s b) = k) (L (HashHead (nat (hash (sint k))))) = Some b"
    and l: "lock (mem s b) \<noteq> None"
  shows "bget p d k s = Inl (Sleeps b)"
proof -
  let ?h = "nat (hash (sint k))"
  from k have h: "?h < NHASH" by (rule hash_nat)
  have "bget p d k s = bget_hit p ?h b (acquire (BucketLock ?h) s)"
    using k f wf_scan [OF wellformed h, of d k] by (simp add: bget_def Let_def)
  with l show ?thesis by (simp add: bget_hit_sleeps)
qed

lemma bget_panic_case:
  assumes wellformed: "wellformed n s L" and k: "0 \<le> hash (sint k)"
    and f: "find (\<lambda>b. dev (mem s b) = d \<and> blockno (mem s b) = k) (L (HashHead (nat (hash (sint k))))) = None"
    and e: "L FreelistHead = []"
  shows "bget p d k s = Inl (Panic ''bget: no buffers'')"
proof -
  let ?h = "nat (hash (sint k))"
  from k have h: "?h < NHASH" by (rule hash_nat)
  show ?thesis
    using k f e wf_scan [OF wellformed h, of d k] wf_free_scan [OF wellformed]
    by (simp add: bget_def Let_def)
qed

lemma bget_miss_case:
  assumes wellformed: "wellformed n s L" and k: "0 \<le> hash (sint k)"
    and f: "find (\<lambda>b. dev (mem s b) = d \<and> blockno (mem s b) = k) (L (HashHead (nat (hash (sint k))))) = None"
    and e: "L FreelistHead = b # fl"
  shows "\<exists>s'. bget p d k s = Inr (b, s') \<and>
           wellformed n s' (moved b FreelistHead (HashHead (nat (hash (sint k)))) L) \<and>
           (\<forall>x. payload (mem s' x) =
              (if x = b
               then (payload (mem s b))\<lparr>dev := d, blockno := k, valid := False, refcnt := 1,
                      lock := Some p\<rparr>
               else payload (mem s x))) \<and>
           disk s' = disk s \<and> io s' = io s \<and>
           spin s' = spin s @ [Acquire (BucketLock (nat (hash (sint k)))), Acquire FreelistLock,
                               Release FreelistLock, Release (BucketLock (nat (hash (sint k))))]"
proof -
  let ?h = "nat (hash (sint k))"
  let ?s2 = "acquire FreelistLock (acquire (BucketLock ?h) s)"
  from k have h: "?h < NHASH" by (rule hash_nat)
  from wellformed have wf2: "wellformed n ?s2 L" by (simp add: wellformed_def)
  from e have b: "b \<in> set (L FreelistHead)" by simp
  from k have kh: "hash (sint k) = int ?h" by simp
  have eq: "bget p d k s = bget_claim p ?h d k b ?s2"
    using k f e wf_scan [OF wellformed h, of d k] wf_free_scan [OF wellformed]
    by (simp add: bget_def Let_def)
  from bget_claim_wf [OF wf2 h b kh, of p d]
  obtain s' where c: "bget_claim p ?h d k b ?s2 = Inr (b, s')"
    "wellformed n s' (moved b FreelistHead (HashHead ?h) L)"
    "\<forall>x. payload (mem s' x) =
       (if x = b
        then (payload (mem ?s2 b))\<lparr>dev := d, blockno := k, valid := False, refcnt := 1,
               lock := Some p\<rparr>
        else payload (mem ?s2 x))"
    "disk s' = disk ?s2" "io s' = io ?s2"
    "spin s' = spin ?s2 @ [Release FreelistLock, Release (BucketLock ?h)]"
    by blast
  show ?thesis
  proof (intro exI conjI)
    show "bget p d k s = Inr (b, s')" using eq c(1) by simp
    show "wellformed n s' (moved b FreelistHead (HashHead ?h) L)" by (rule c(2))
    show "\<forall>x. payload (mem s' x) =
       (if x = b
        then (payload (mem s b))\<lparr>dev := d, blockno := k, valid := False, refcnt := 1,
               lock := Some p\<rparr>
        else payload (mem s x))" using c(3) by simp
    show "disk s' = disk s" using c(4) by simp
    show "io s' = io s" using c(5) by simp
    show "spin s' = spin s @ [Acquire (BucketLock ?h), Acquire FreelistLock,
                               Release FreelistLock, Release (BucketLock ?h)]"
      using c(6) by simp
  qed
qed

lemma virtio_read_simps [simp]:
  "mem (virtio_disk_rw b False s) =
     (mem s)(b := (mem s b)\<lparr>data := disk s (dev (mem s b), blockno (mem s b))\<rparr>)"
  "disk (virtio_disk_rw b False s) = disk s"
  "io (virtio_disk_rw b False s) = io s @ [DiskRead (dev (mem s b)) (blockno (mem s b))]"
  "spin (virtio_disk_rw b False s) = spin s"
  by (simp_all add: virtio_disk_rw_def Let_def)

lemma virtio_write_simps [simp]:
  "mem (virtio_disk_rw b True s) = mem s"
  "disk (virtio_disk_rw b True s) =
     (disk s)((dev (mem s b), blockno (mem s b)) := data (mem s b))"
  "io (virtio_disk_rw b True s) =
     io s @ [DiskWrite (dev (mem s b)) (blockno (mem s b)) (data (mem s b))]"
  "spin (virtio_disk_rw b True s) = spin s"
  by (simp_all add: virtio_disk_rw_def Let_def)

lemma wf_mem_cong: "mem s' = mem s \<Longrightarrow> wellformed n s' L = wellformed n s L"
  by (simp add: wellformed_def)

lemma bread_hit_case:
  assumes wellformed: "wellformed n s L" and k: "0 \<le> hash (sint k)"
    and f: "find (\<lambda>b. dev (mem s b) = d \<and> blockno (mem s b) = k) (L (HashHead (nat (hash (sint k))))) = Some b"
    and l: "lock (mem s b) = None"
  shows "\<exists>s'. bread p d k s = Inr (b, s') \<and> wellformed n s' L \<and>
           mem s' = (mem s)(b :=
              (if valid (mem s b)
               then (mem s b)\<lparr>refcnt := refcnt (mem s b) + 1, lock := Some p\<rparr>
               else (mem s b)\<lparr>refcnt := refcnt (mem s b) + 1, lock := Some p,
                      data := disk s (d, k), valid := True\<rparr>)) \<and>
           disk s' = disk s \<and>
           io s' = io s @ (if valid (mem s b) then [] else [DiskRead d k]) \<and>
           spin s' = spin s @ [Acquire (BucketLock (nat (hash (sint k)))),
                               Release (BucketLock (nat (hash (sint k))))]"
proof -
  let ?h = "nat (hash (sint k))"
  from k have h: "?h < NHASH" by (rule hash_nat)
  from f have b: "b \<in> set (L (HashHead ?h))" and id: "dev (mem s b) = d" "blockno (mem s b) = k"
    by (auto dest: find_SomeD)
  from bget_hit_case [OF wellformed k f l, of p]
  obtain s1 where s1: "bget p d k s = Inr (b, s1)" "wellformed n s1 L"
    "mem s1 = (mem s)(b := (mem s b)\<lparr>refcnt := refcnt (mem s b) + 1, lock := Some p\<rparr>)"
    "disk s1 = disk s" "io s1 = io s"
    "spin s1 = spin s @ [Acquire (BucketLock ?h), Release (BucketLock ?h)]"
    by blast
  show ?thesis
  proof (cases "valid (mem s b)")
    case True
    with s1 have "bread p d k s = Inr (b, s1)" by (simp add: bread_def)
    with s1 True show ?thesis by simp
  next
    case False
    let ?s2 = "upd b (\<lambda>x. x\<lparr>valid := True\<rparr>) (virtio_disk_rw b False s1)"
    from s1 False have eq: "bread p d k s = Inr (b, ?s2)" by (simp add: bread_def)
    have m: "mem ?s2 = (mem s)(b := (mem s b)\<lparr>refcnt := refcnt (mem s b) + 1, lock := Some p,
                      data := disk s (d, k), valid := True\<rparr>)"
      by (simp add: s1 id)
    from wellformed h b m have "wellformed n ?s2 L" by (rule wf_upd_bucket) simp_all
    with eq m False s1 id show ?thesis by simp
  qed
qed

lemma bread_sleeps_case:
  assumes "wellformed n s L" and "0 \<le> hash (sint k)"
    and "find (\<lambda>b. dev (mem s b) = d \<and> blockno (mem s b) = k) (L (HashHead (nat (hash (sint k))))) = Some b"
    and "lock (mem s b) \<noteq> None"
  shows "bread p d k s = Inl (Sleeps b)"
  using bget_sleeps_case [OF assms] by (simp add: bread_def)

lemma bread_panic_case:
  assumes "wellformed n s L" and "0 \<le> hash (sint k)"
    and "find (\<lambda>b. dev (mem s b) = d \<and> blockno (mem s b) = k) (L (HashHead (nat (hash (sint k))))) = None"
    and "L FreelistHead = []"
  shows "bread p d k s = Inl (Panic ''bget: no buffers'')"
  using bget_panic_case [OF assms] by (simp add: bread_def)

lemma moved_dst: "src \<noteq> dst \<Longrightarrow> moved b src dst L dst = b # L dst"
  by (simp add: moved_def Let_def)

lemma moved_src: "src \<noteq> dst \<Longrightarrow> moved b src dst L src = remove1 b (L src)"
  by (simp add: moved_def Let_def)

lemma moved_other: "lh \<noteq> src \<Longrightarrow> lh \<noteq> dst \<Longrightarrow> moved b src dst L lh = L lh"
  by (simp add: moved_def Let_def)

lemma bread_miss_case:
  assumes wellformed: "wellformed n s L" and k: "0 \<le> hash (sint k)"
    and f: "find (\<lambda>b. dev (mem s b) = d \<and> blockno (mem s b) = k) (L (HashHead (nat (hash (sint k))))) = None"
    and e: "L FreelistHead = b # fl"
  shows "\<exists>s'. bread p d k s = Inr (b, s') \<and>
           wellformed n s' (moved b FreelistHead (HashHead (nat (hash (sint k)))) L) \<and>
           (\<forall>x. payload (mem s' x) =
              (if x = b
               then (payload (mem s b))\<lparr>dev := d, blockno := k, valid := True, refcnt := 1,
                      lock := Some p, data := disk s (d, k)\<rparr>
               else payload (mem s x))) \<and>
           disk s' = disk s \<and> io s' = io s @ [DiskRead d k] \<and>
           spin s' = spin s @ [Acquire (BucketLock (nat (hash (sint k)))), Acquire FreelistLock,
                               Release FreelistLock, Release (BucketLock (nat (hash (sint k))))]"
proof -
  let ?h = "nat (hash (sint k))"
  let ?L = "moved b FreelistHead (HashHead ?h) L"
  from k have h: "?h < NHASH" by (rule hash_nat)
  from bget_miss_case [OF wellformed k f e, of p]
  obtain s1 where s1: "bget p d k s = Inr (b, s1)" "wellformed n s1 ?L"
    and p1: "\<And>x. payload (mem s1 x) =
       (if x = b
        then (payload (mem s b))\<lparr>dev := d, blockno := k, valid := False, refcnt := 1,
               lock := Some p\<rparr>
        else payload (mem s x))"
    and r1: "disk s1 = disk s" "io s1 = io s"
    "spin s1 = spin s @ [Acquire (BucketLock ?h), Acquire FreelistLock,
                          Release FreelistLock, Release (BucketLock ?h)]"
    by blast
  note fb = payload_fieldsD [OF p1 [of b]]
  define s2 where "s2 = upd b (\<lambda>x. x\<lparr>valid := True\<rparr>) (virtio_disk_rw b False s1)"
  from s1 fb(1) have eq: "bread p d k s = Inr (b, s2)" by (simp add: bread_def s2_def)
  have m: "mem s2 = (mem s1)(b := (mem s1 b)\<lparr>data := disk s (d, k), valid := True\<rparr>)"
    using fb r1 by (simp add: s2_def)
  have "b \<in> set (?L (HashHead ?h))" by (simp add: moved_dst)
  with s1(2) h have w: "wellformed n s2 ?L" using m by (rule wf_upd_bucket) simp_all
  have pl: "\<forall>x. payload (mem s2 x) =
       (if x = b
        then (payload (mem s b))\<lparr>dev := d, blockno := k, valid := True, refcnt := 1,
               lock := Some p, data := disk s (d, k)\<rparr>
        else payload (mem s x))"
  proof
    fix x
    show "payload (mem s2 x) =
       (if x = b
        then (payload (mem s b))\<lparr>dev := d, blockno := k, valid := True, refcnt := 1,
               lock := Some p, data := disk s (d, k)\<rparr>
        else payload (mem s x))"
    unfolding m using p1 [of x] p1 [of b] by (cases "x = b") simp_all
  qed
  have i: "io s2 = io s @ [DiskRead d k]" using fb r1 by (simp add: s2_def)
  have dk: "disk s2 = disk s" using r1 by (simp add: s2_def)
  have sp: "spin s2 = spin s @ [Acquire (BucketLock ?h), Acquire FreelistLock,
                          Release FreelistLock, Release (BucketLock ?h)]"
    using r1 by (simp add: s2_def)
  from eq w pl i dk sp show ?thesis by blast
qed

lemma brelse_panic: "\<not> holdingsleep p b s \<Longrightarrow> brelse p b s = Inl (Panic ''brelse'')"
  by (simp add: brelse_def)

lemma bwrite_panic: "\<not> holdingsleep p b s \<Longrightarrow> bwrite p b s = Inl (Panic ''bwrite'')"
  by (simp add: bwrite_def)

lemma bwrite_holding:
  "holdingsleep p b s \<Longrightarrow>
   bwrite p b s =
     Inr (s\<lparr>disk := (disk s)((dev (mem s b), blockno (mem s b)) := data (mem s b)),
            io := io s @ [DiskWrite (dev (mem s b)) (blockno (mem s b)) (data (mem s b))]\<rparr>)"
  by (simp add: bwrite_def virtio_disk_rw_def Let_def)

lemma bpin_eq:
  "0 \<le> hash (sint (blockno (mem s b))) \<Longrightarrow>
   bpin b s =
     Inr (s\<lparr>mem := (mem s)(b := (mem s b)\<lparr>refcnt := refcnt (mem s b) + 1\<rparr>),
            spin := spin s @ [Acquire (BucketLock (nat (hash (sint (blockno (mem s b)))))),
                              Release (BucketLock (nat (hash (sint (blockno (mem s b))))))]\<rparr>)"
  by (simp add: bpin_def Let_def acquire_def release_def upd_def)

lemma bunpin_eq:
  "0 \<le> hash (sint (blockno (mem s b))) \<Longrightarrow>
   bunpin b s =
     Inr (s\<lparr>mem := (mem s)(b := (mem s b)\<lparr>refcnt := refcnt (mem s b) - 1\<rparr>),
            spin := spin s @ [Acquire (BucketLock (nat (hash (sint (blockno (mem s b)))))),
                              Release (BucketLock (nat (hash (sint (blockno (mem s b))))))]\<rparr>)"
  by (simp add: bunpin_def Let_def acquire_def release_def upd_def)

lemma bpin_fault: "hash (sint (blockno (mem s b))) < 0 \<Longrightarrow> bpin b s = Inl OutOfBounds"
  by (simp add: bpin_def Let_def)

lemma bunpin_fault: "hash (sint (blockno (mem s b))) < 0 \<Longrightarrow> bunpin b s = Inl OutOfBounds"
  by (simp add: bunpin_def Let_def)

lemma brelse_keep:
  assumes wellformed: "wellformed n s L" and h: "h < NHASH" and b: "b \<in> set (L (HashHead h))"
    and l: "lock (mem s b) = Some p" and r: "refcnt (mem s b) \<noteq> 1"
  shows "\<exists>s'. brelse p b s = Inr s' \<and> wellformed n s' L \<and>
           mem s' = (mem s)(b := (mem s b)\<lparr>lock := None, refcnt := refcnt (mem s b) - 1\<rparr>) \<and>
           disk s' = disk s \<and> io s' = io s \<and>
           spin s' = spin s @ [Acquire (BucketLock h), Release (BucketLock h)]"
proof -
  define s' where "s' = release (BucketLock h) (upd b (\<lambda>x. x\<lparr>refcnt := refcnt x - 1\<rparr>)
      (acquire (BucketLock h) (releasesleep b s)))"
  from wf_hash [OF wellformed h b] have hh: "hash (sint (blockno (mem s b))) = int h" .
  from r have "refcnt (mem s b) - 1 \<noteq> 0" by simp
  with l hh have eq: "brelse p b s = Inr s'"
    by (simp add: brelse_def holdingsleep_def releasesleep_def Let_def s'_def)
  have m: "mem s' = (mem s)(b := (mem s b)\<lparr>lock := None, refcnt := refcnt (mem s b) - 1\<rparr>)"
    by (simp add: s'_def releasesleep_def)
  from wellformed h b m have w: "wellformed n s' L" by (rule wf_upd_bucket) simp_all
  have "disk s' = disk s" "io s' = io s"
    "spin s' = spin s @ [Acquire (BucketLock h), Release (BucketLock h)]"
    by (simp_all add: s'_def releasesleep_def)
  with eq w m show ?thesis by blast
qed

lemma brelse_last:
  assumes wellformed: "wellformed n s L" and h: "h < NHASH" and b: "b \<in> set (L (HashHead h))"
    and l: "lock (mem s b) = Some p" and r: "refcnt (mem s b) = 1"
  shows "\<exists>s'. brelse p b s = Inr s' \<and> wellformed n s' (moved b (HashHead h) FreelistHead L) \<and>
           (\<forall>x. payload (mem s' x) =
              (if x = b then (payload (mem s b))\<lparr>lock := None, refcnt := 0\<rparr>
               else payload (mem s x))) \<and>
           disk s' = disk s \<and> io s' = io s \<and>
           spin s' = spin s @ [Acquire (BucketLock h), Acquire FreelistLock,
                               Release FreelistLock, Release (BucketLock h)]"
proof -
  from wellformed have st: "linked (mem s) L" by (rule wf_struct)
  from h have hh: "HashHead h \<in> heads" by simp
  from struct_Cache [OF st hh b] obtain i where i: "b = Cache i" by auto
  define t where "t = upd b (\<lambda>x. x\<lparr>refcnt := refcnt x - 1\<rparr>)
      (acquire (BucketLock h) (releasesleep b s))"
  define u where "u = acquire FreelistLock (unlink b t)"
  define s' where "s' = release (BucketLock h) (release FreelistLock (link_front FreelistHead b u))"
  from wf_hash [OF wellformed h b] have hb: "hash (sint (blockno (mem s b))) = int h" .
  have mt: "mem t = (mem s)(b := (mem s b)\<lparr>lock := None, refcnt := 0\<rparr>)"
    using r by (simp add: t_def releasesleep_def)
  from l hb r have eq: "brelse p b s = Inr s'"
    by (simp add: brelse_def holdingsleep_def releasesleep_def Let_def s'_def u_def t_def)
  have "linked (mem t) L" unfolding mt using st by (rule struct_upd) simp_all
  then have "linked (mem (link_front FreelistHead (Cache i) u)) (moved (Cache i) (HashHead h) FreelistHead L)"
    using hh b [unfolded i]
    by (rule struct_moved) (simp_all add: u_def i)
  then have st': "linked (mem s') (moved b (HashHead h) FreelistHead L)"
    by (simp add: s'_def i)
  have ps: "payload (mem s' x) =
      (if x = b then (payload (mem s b))\<lparr>lock := None, refcnt := 0\<rparr> else payload (mem s x))" for x
    by (simp add: s'_def u_def mt)
  have fb: "refcnt (mem s' b) = 0 \<and> lock (mem s' b) = None"
    using payload_fieldsD(4,5) [OF ps [of b]] by simp
  from wellformed hh b _ st' have w: "wellformed n s' (moved b (HashHead h) FreelistHead L)"
    by (rule wf_moved) (simp_all add: ps fb)
  have "disk s' = disk s" "io s' = io s"
    "spin s' = spin s @ [Acquire (BucketLock h), Acquire FreelistLock,
                               Release FreelistLock, Release (BucketLock h)]"
    by (simp_all add: s'_def u_def t_def releasesleep_def)
  with eq w ps show ?thesis by blast
qed

lemma wf_bpin:
  assumes wellformed: "wellformed n s L" and h: "h < NHASH" and b: "b \<in> set (L (HashHead h))"
    and e: "bpin b s = Inr s'"
  shows "wellformed n s' L"
proof -
  from wf_hash [OF wellformed h b] have "0 \<le> hash (sint (blockno (mem s b)))" by simp
  from bpin_eq [OF this] e
  have "mem s' = (mem s)(b := (mem s b)\<lparr>refcnt := refcnt (mem s b) + 1\<rparr>)" by auto
  with wellformed h b show ?thesis by (rule wf_upd_bucket) simp_all
qed

lemma wf_bunpin:
  assumes wellformed: "wellformed n s L" and h: "h < NHASH" and b: "b \<in> set (L (HashHead h))"
    and e: "bunpin b s = Inr s'"
  shows "wellformed n s' L"
proof -
  from wf_hash [OF wellformed h b] have "0 \<le> hash (sint (blockno (mem s b)))" by simp
  from bunpin_eq [OF this] e
  have "mem s' = (mem s)(b := (mem s b)\<lparr>refcnt := refcnt (mem s b) - 1\<rparr>)" by auto
  with wellformed h b show ?thesis by (rule wf_upd_bucket) simp_all
qed

lemma wf_bwrite: "wellformed n s L \<Longrightarrow> bwrite p b s = Inr s' \<Longrightarrow> wellformed n s' L"
  by (auto simp: bwrite_def wellformed_def split: if_splits)

text \<open>Where a slot is.\<close>

lemma wf_slot_cases:
  assumes wellformed: "wellformed n s L" and i: "i < n"
  shows "Cache i \<in> set (L FreelistHead) \<or> (\<exists>h<NHASH. Cache i \<in> set (L (HashHead h)))"
proof -
  from wellformed i have "Cache i \<in> (\<Union>lh\<in>heads. set (L lh))" by (simp add: wellformed_def)
  then show ?thesis by (auto simp: heads_def)
qed

lemma slot_iff: "slot n b \<longleftrightarrow> b \<in> Cache ` {..<n}"
  by (cases b) auto

lemma wf_members: "wellformed n s L \<Longrightarrow> lh \<in> heads \<Longrightarrow> members s lh = set (L lh)"
  by (simp add: members_def wf_list_of)

lemma wf_inv:
  assumes wellformed: "wellformed n s L"
  shows "cache_inv n s"
proof -
  from wellformed have st: "linked (mem s) L" by (rule wf_struct)
  note mem = wf_members [OF wellformed]
  have 1: "\<forall>lh\<in>heads. \<exists>xs. list_of s lh = Some xs \<and> ring (mem s) lh xs"
    using wf_list_of [OF wellformed] struct_ring [OF st] by blast
  have 2: "\<exists>!lh. lh \<in> heads \<and> Cache i \<in> members s lh" if "i < n" for i
  proof -
    from wellformed that have "Cache i \<in> (\<Union>lh\<in>heads. set (L lh))" by (simp add: wellformed_def)
    then obtain lh where lh: "lh \<in> heads" "Cache i \<in> set (L lh)" by blast
    show ?thesis
    proof (rule ex1I [of _ lh])
      from lh show "lh \<in> heads \<and> Cache i \<in> members s lh" by (simp add: mem)
    next
      fix lh' assume "lh' \<in> heads \<and> Cache i \<in> members s lh'"
      then have "lh' \<in> heads" "Cache i \<in> set (L lh')" by (auto simp: mem)
      with lh show "lh' = lh" using struct_disj [OF st] by blast
    qed
  qed
  have 3: "\<forall>lh\<in>heads. members s lh \<subseteq> Cache ` {..<n}"
    using wf_in_union [OF wellformed] by (auto simp: mem)
  have 4: "\<forall>h<NHASH. \<forall>b\<in>members s (HashHead h). hash (sint (blockno (mem s b))) = int h"
    using wf_hash [OF wellformed] by (simp add: mem)
  have 5: "\<forall>b\<in>members s FreelistHead. refcnt (mem s b) = 0 \<and> lock (mem s b) = None"
    using wf_free [OF wellformed] by (simp add: mem)
  from 1 2 3 4 5 show ?thesis unfolding cache_inv_def by blast
qed

lemma inv_wf:
  assumes cache_inv: "cache_inv n s"
  shows "wellformed n s (lists_of s)"
proof -
  have lo: "list_of s lh = Some (lists_of s lh) \<and> ring (mem s) lh (lists_of s lh)" if "lh \<in> heads" for lh
    using cache_inv that unfolding cache_inv_def lists_of_def by fastforce
  then have mem: "members s lh = set (lists_of s lh)" if "lh \<in> heads" for lh
    using that by (simp add: members_def)
  have sub: "set (lists_of s lh) \<subseteq> Cache ` {..<n}" if "lh \<in> heads" for lh
  proof -
    from cache_inv that have "members s lh \<subseteq> Cache ` {..<n}" by (simp add: cache_inv_def)
    with mem [OF that] show ?thesis by simp
  qed
  from cache_inv have uniq: "lh = lh'"
    if "lh \<in> heads" "lh' \<in> heads" "i < n" "Cache i \<in> set (lists_of s lh)" "Cache i \<in> set (lists_of s lh')"
    for lh lh' i
  proof -
    from cache_inv that(3) have "\<exists>!k. k \<in> heads \<and> Cache i \<in> members s k" by (simp add: cache_inv_def)
    moreover from that have "lh \<in> heads \<and> Cache i \<in> members s lh"
      "lh' \<in> heads \<and> Cache i \<in> members s lh'" by (simp_all add: mem)
    ultimately show ?thesis by blast
  qed
  have disj: "set (lists_of s lh) \<inter> set (lists_of s lh') = {}"
    if "lh \<in> heads" "lh' \<in> heads" "lh \<noteq> lh'" for lh lh'
  proof (rule ccontr)
    assume "set (lists_of s lh) \<inter> set (lists_of s lh') \<noteq> {}"
    then obtain x where x: "x \<in> set (lists_of s lh)" "x \<in> set (lists_of s lh')" by blast
    with sub [OF that(1)] obtain i where "x = Cache i" "i < n" by blast
    with uniq [OF that(1,2)] x that(3) show False by blast
  qed
  have st: "linked (mem s) (lists_of s)"
    unfolding linked_def using lo disj sub by blast
  have un: "(\<Union>lh\<in>heads. set (lists_of s lh)) = Cache ` {..<n}"
  proof
    show "(\<Union>lh\<in>heads. set (lists_of s lh)) \<subseteq> Cache ` {..<n}" using sub by blast
    show "Cache ` {..<n} \<subseteq> (\<Union>lh\<in>heads. set (lists_of s lh))"
    proof
      fix x assume "x \<in> Cache ` {..<n}"
      then obtain i where i: "x = Cache i" "i < n" by blast
      with cache_inv have "\<exists>!k. k \<in> heads \<and> Cache i \<in> members s k" by (simp add: cache_inv_def)
      then obtain k where "k \<in> heads" "Cache i \<in> members s k" by blast
      with i show "x \<in> (\<Union>lh\<in>heads. set (lists_of s lh))" using mem by blast
    qed
  qed
  have 4: "\<forall>h<NHASH. \<forall>b\<in>set (lists_of s (HashHead h)). hash (sint (blockno (mem s b))) = int h"
    using cache_inv mem unfolding cache_inv_def by simp
  have 5: "\<forall>b\<in>set (lists_of s FreelistHead). refcnt (mem s b) = 0 \<and> lock (mem s b) = None"
    using cache_inv mem [of FreelistHead] unfolding cache_inv_def by simp
  from st un 4 5 show ?thesis unfolding wellformed_def by blast
qed

lemma inv_iff_wf: "cache_inv n s \<longleftrightarrow> (\<exists>L. wellformed n s L)"
  using wf_inv inv_wf by blast

lemma bget_fault: "hash (sint k) < 0 \<Longrightarrow> bget p d k s = Inl OutOfBounds"
  by (simp add: bget_def Let_def)

lemma bread_fault: "hash (sint k) < 0 \<Longrightarrow> bread p d k s = Inl OutOfBounds"
  by (simp add: bread_def bget_fault)

lemma bread_wf:
  assumes wellformed: "wellformed n s L" and e: "bread p d k s = Inr (b, s')"
  shows "\<exists>L'. wellformed n s' L'"
proof -
  let ?h = "nat (hash (sint k))"
  let ?f = "find (\<lambda>b. dev (mem s b) = d \<and> blockno (mem s b) = k) (L (HashHead ?h))"
  from e have k: "0 \<le> hash (sint k)" using bread_fault [of k p d s] by (cases "hash (sint k) < 0") auto
  show ?thesis
  proof (cases ?f)
    case None
    show ?thesis
    proof (cases "L FreelistHead")
      case Nil
      from bread_panic_case [OF wellformed k None Nil, of p] e show ?thesis by simp
    next
      case (Cons c fl)
      from bread_miss_case [OF wellformed k None Cons, of p] e show ?thesis by auto
    qed
  next
    case (Some c)
    show ?thesis
    proof (cases "lock (mem s c) = None")
      case True
      from bread_hit_case [OF wellformed k Some True, of p] e show ?thesis by auto
    next
      case False
      from bread_sleeps_case [OF wellformed k Some False, of p] e show ?thesis by simp
    qed
  qed
qed

lemma brelse_wf:
  assumes wellformed: "wellformed n s L" and b: "slot n b" and e: "brelse p b s = Inr s'"
  shows "\<exists>L'. wellformed n s' L'"
proof -
  from e have l: "lock (mem s b) = Some p"
    using brelse_panic [of p b s] by (auto simp: holdingsleep_def)
  from b obtain i where i: "b = Cache i" "i < n" by (auto simp: slot_iff)
  from wf_slot_cases [OF wellformed i(2)] wf_free [OF wellformed, of b] l i
  obtain h where h: "h < NHASH" "b \<in> set (L (HashHead h))" by auto
  show ?thesis
  proof (cases "refcnt (mem s b) = 1")
    case True
    from brelse_last [OF wellformed h l True] e show ?thesis by auto
  next
    case False
    from brelse_keep [OF wellformed h l False] e show ?thesis by auto
  qed
qed

lemma wf_referenced:
  assumes wellformed: "wellformed n s L" and b: "slot n b" and r: "refcnt (mem s b) \<noteq> 0"
  shows "\<exists>h<NHASH. b \<in> set (L (HashHead h))"
proof -
  from b obtain i where i: "b = Cache i" "i < n" by (auto simp: slot_iff)
  from wf_slot_cases [OF wellformed i(2)] wf_free [OF wellformed, of b] r i show ?thesis by auto
qed

lemma step_wf:
  assumes wellformed: "wellformed n s L" and a: "allowed n c s" and e: "step c s = Inr s'"
  shows "\<exists>L'. wellformed n s' L'"
proof (cases c)
  case (Bread p d k)
  with e obtain b where "bread p d k s = Inr (b, s')" by (auto split: sum.splits)
  with wellformed show ?thesis by (rule bread_wf)
next
  case (Bwrite p b)
  with e wf_bwrite [OF wellformed, of p b s'] show ?thesis by auto
next
  case (Brelse p b)
  with a e brelse_wf [OF wellformed, of b p s'] show ?thesis by auto
next
  case (Bpin b)
  with a wf_referenced [OF wellformed, of b] obtain h where "h < NHASH" "b \<in> set (L (HashHead h))" by auto
  with Bpin e wf_bpin [OF wellformed, of h b s'] show ?thesis by auto
next
  case (Bunpin b)
  with a wf_referenced [OF wellformed, of b] obtain h where "h < NHASH" "b \<in> set (L (HashHead h))" by auto
  with Bunpin e wf_bunpin [OF wellformed, of h b s'] show ?thesis by auto
qed

lemma legal_run: "legal n cs s \<Longrightarrow> run cs s = Inr (state_after cs s)"
proof (induction cs arbitrary: s)
  case Nil
  then show ?case by (simp add: state_after_def)
next
  case (Cons c cs)
  from Cons.prems obtain s' where s': "step c s = Inr s'" "legal n cs s'"
    by (auto split: sum.splits)
  from Cons.IH [OF s'(2)] s'(1) show ?case
    by (cases "run cs s'") (auto simp: state_after_def)
qed

lemma legal_inv: "cache_inv n s \<Longrightarrow> legal n cs s \<Longrightarrow> cache_inv n (state_after cs s)"
proof (induction cs arbitrary: s)
  case Nil
  then show ?case by (simp add: state_after_def)
next
  case (Cons c cs)
  from Cons.prems(2) obtain s' where s': "allowed n c s" "step c s = Inr s'" "legal n cs s'"
    by (auto split: sum.splits)
  from Cons.prems(1) have "wellformed n s (lists_of s)" by (rule inv_wf)
  from step_wf [OF this s'(1,2)] have "cache_inv n s'" by (simp add: inv_iff_wf)
  from Cons.IH [OF this s'(3)] have "cache_inv n (state_after cs s')" .
  moreover have "state_after (c # cs) s = state_after cs s'"
    using legal_run [OF s'(3)] s'(2) by (cases "run cs s'") (auto simp: state_after_def)
  ultimately show ?case by simp
qed

subsection \<open>Lists, concrete states\<close>

lemma list_of_cong:
  "(\<And>x. next (mem s' x) = next (mem s x)) \<Longrightarrow> list_of s' lh = list_of s lh"
  by (simp add: list_of_def)

lemma boot_refcnt [simp]: "refcnt (mem (boot z dsk) x) = 0"
  by (simp add: boot_def)

lemma cache_inv_after:
  assumes "\<forall>i<n. refcnt (mem s0 (Cache i)) = 0" and "legal n cs (binit n s0)"
  shows "cache_inv n (state_after cs (binit n s0))"
proof -
  from assms(1) have "wellformed n (binit n s0) (init_lists n)" by (intro wf_binit) simp
  then have "cache_inv n (binit n s0)" by (rule wf_inv)
  then show ?thesis using assms(2) by (rule legal_inv)
qed

lemma cache_inv_s_init: "cache_inv 2 s_init"
  unfolding s_init_def by (rule wf_inv, rule wf_binit) simp

lemma cache_inv_s_held: "cache_inv 2 s_held"
  unfolding s_held_def s_init_def by (rule cache_inv_after) (simp, code_simp)

lemma brelse_never_panics:
  "holdingsleep p b s \<Longrightarrow> brelse p b s \<noteq> Inl (Panic m)"
  by (simp add: brelse_def Let_def)

lemma brelse_returns:
  "holdingsleep p b s \<Longrightarrow> 0 \<le> hash (sint (blockno (mem s b))) \<Longrightarrow> \<exists>s'. brelse p b s = Inr s'"
  by (simp add: brelse_def Let_def releasesleep_def)

subsection \<open>The operations on states that satisfy the invariant\<close>

lemma cached_wf:
  "wellformed n s L \<Longrightarrow> 0 \<le> hash (sint k) \<Longrightarrow>
   cached s d k = find (\<lambda>b. dev (mem s b) = d \<and> blockno (mem s b) = k) (L (HashHead (nat (hash (sint k)))))"
  by (simp add: cached_def wf_list_of hash_nat)

lemma wf_lists_of: "wellformed n s L \<Longrightarrow> lh \<in> heads \<Longrightarrow> lists_of s lh = L lh"
  by (simp add: lists_of_def wf_list_of)

lemma bread_hit_inv:
  assumes inv: "cache_inv n s" and k: "0 \<le> hash (sint k)"
    and c: "cached s d k = Some b" and l: "lock (mem s b) = None"
  shows "\<exists>s'. bread p d k s = Inr (b, s') \<and> cache_inv n s' \<and>
           mem s' = (mem s)(b :=
              (if valid (mem s b)
               then (mem s b)\<lparr>refcnt := refcnt (mem s b) + 1, lock := Some p\<rparr>
               else (mem s b)\<lparr>refcnt := refcnt (mem s b) + 1, lock := Some p,
                      data := disk s (d, k), valid := True\<rparr>)) \<and>
           dev (mem s b) = d \<and> blockno (mem s b) = k \<and>
           disk s' = disk s \<and>
           io s' = io s @ (if valid (mem s b) then [] else [DiskRead d k]) \<and>
           spin s' = spin s @ bucket_only (nat (hash (sint k))) \<and>
           (\<forall>lh. list_of s' lh = list_of s lh)"
proof -
  from inv have wf: "wellformed n s (lists_of s)" by (rule inv_wf)
  from c have f: "find (\<lambda>b. dev (mem s b) = d \<and> blockno (mem s b) = k)
      (lists_of s (HashHead (nat (hash (sint k))))) = Some b"
    by (simp add: cached_wf [OF wf k])
  from bread_hit_case [OF wf k f l, of p]
  obtain s' where s': "bread p d k s = Inr (b, s')" "wellformed n s' (lists_of s)"
    "mem s' = (mem s)(b :=
              (if valid (mem s b)
               then (mem s b)\<lparr>refcnt := refcnt (mem s b) + 1, lock := Some p\<rparr>
               else (mem s b)\<lparr>refcnt := refcnt (mem s b) + 1, lock := Some p,
                      data := disk s (d, k), valid := True\<rparr>))"
    "disk s' = disk s" "io s' = io s @ (if valid (mem s b) then [] else [DiskRead d k])"
    "spin s' = spin s @ [Acquire (BucketLock (nat (hash (sint k)))),
                               Release (BucketLock (nat (hash (sint k))))]"
    by blast
  have "list_of s' lh = list_of s lh" for lh
    by (rule list_of_cong) (simp add: s'(3))
  moreover from f have "dev (mem s b) = d \<and> blockno (mem s b) = k" by (auto dest: find_SomeD)
  moreover from s'(2) have "cache_inv n s'" by (rule wf_inv)
  ultimately show ?thesis using s' by (simp add: bucket_only_def)
qed

lemma bread_sleeps_inv:
  assumes inv: "cache_inv n s" and k: "0 \<le> hash (sint k)"
    and c: "cached s d k = Some b" and l: "lock (mem s b) \<noteq> None"
  shows "bread p d k s = Inl (Sleeps b)"
proof -
  from inv have wf: "wellformed n s (lists_of s)" by (rule inv_wf)
  from c have f: "find (\<lambda>b. dev (mem s b) = d \<and> blockno (mem s b) = k)
      (lists_of s (HashHead (nat (hash (sint k))))) = Some b"
    by (simp add: cached_wf [OF wf k])
  from wf k f l show ?thesis by (rule bread_sleeps_case)
qed

lemma bread_panic_inv:
  assumes inv: "cache_inv n s" and k: "0 \<le> hash (sint k)"
    and c: "cached s d k = None" and e: "lists_of s FreelistHead = []"
  shows "bread p d k s = Inl (Panic ''bget: no buffers'')"
proof -
  from inv have wf: "wellformed n s (lists_of s)" by (rule inv_wf)
  from c have f: "find (\<lambda>b. dev (mem s b) = d \<and> blockno (mem s b) = k)
      (lists_of s (HashHead (nat (hash (sint k))))) = None"
    by (simp add: cached_wf [OF wf k])
  from wf k f e show ?thesis by (rule bread_panic_case)
qed

lemma moved_lists:
  assumes wf': "wellformed n s' (moved b src dst L)" and ne: "src \<noteq> dst"
    and hd: "src \<in> heads" "dst \<in> heads"
  shows "list_of s' dst = Some (b # L dst)"
    and "list_of s' src = Some (remove1 b (L src))"
    and "\<And>lh. lh \<in> heads \<Longrightarrow> lh \<noteq> src \<Longrightarrow> lh \<noteq> dst \<Longrightarrow> list_of s' lh = Some (L lh)"
  using wf_list_of [OF wf'] ne hd by (simp_all add: moved_dst moved_src moved_other)

lemma fields_of_payload:
  assumes "\<forall>x. payload (mem s' x) = (if x = b then v else payload (mem s x))"
  shows "valid (mem s' b) = valid v" "dev (mem s' b) = dev v" "blockno (mem s' b) = blockno v"
    "lock (mem s' b) = lock v" "refcnt (mem s' b) = refcnt v" "data (mem s' b) = data v"
    and "\<And>x. x \<noteq> b \<Longrightarrow> valid (mem s' x) = valid (mem s x) \<and> dev (mem s' x) = dev (mem s x) \<and>
       blockno (mem s' x) = blockno (mem s x) \<and> lock (mem s' x) = lock (mem s x) \<and>
       refcnt (mem s' x) = refcnt (mem s x) \<and> data (mem s' x) = data (mem s x)"
proof -
  from assms have b: "payload (mem s' b) = v" by simp
  from payload_fieldsD [OF b]
  show "valid (mem s' b) = valid v" "dev (mem s' b) = dev v" "blockno (mem s' b) = blockno v"
    "lock (mem s' b) = lock v" "refcnt (mem s' b) = refcnt v" "data (mem s' b) = data v" .
  fix x assume "x \<noteq> b"
  with assms have "payload (mem s' x) = payload (mem s x)" by simp
  then show "valid (mem s' x) = valid (mem s x) \<and> dev (mem s' x) = dev (mem s x) \<and>
       blockno (mem s' x) = blockno (mem s x) \<and> lock (mem s' x) = lock (mem s x) \<and>
       refcnt (mem s' x) = refcnt (mem s x) \<and> data (mem s' x) = data (mem s x)"
    by (simp add: payload_eq_iff)
qed


lemma bread_miss_inv:
  assumes inv: "cache_inv n s" and k: "0 \<le> hash (sint k)"
    and c: "cached s d k = None" and e: "lists_of s FreelistHead = b # fl"
  shows "\<exists>s'. bread p d k s = Inr (b, s') \<and> cache_inv n s' \<and>
           dev (mem s' b) = d \<and> blockno (mem s' b) = k \<and> valid (mem s' b) \<and>
           refcnt (mem s' b) = 1 \<and> lock (mem s' b) = Some p \<and> data (mem s' b) = disk s (d, k) \<and>
           (\<forall>x. x \<noteq> b \<longrightarrow> valid (mem s' x) = valid (mem s x) \<and> dev (mem s' x) = dev (mem s x) \<and>
              blockno (mem s' x) = blockno (mem s x) \<and> lock (mem s' x) = lock (mem s x) \<and>
              refcnt (mem s' x) = refcnt (mem s x) \<and> data (mem s' x) = data (mem s x)) \<and>
           disk s' = disk s \<and> io s' = io s @ [DiskRead d k] \<and>
           spin s' = spin s @ bucket_then_pool (nat (hash (sint k))) \<and>
           list_of s' (HashHead (nat (hash (sint k)))) =
             Some (b # lists_of s (HashHead (nat (hash (sint k))))) \<and>
           list_of s' FreelistHead = Some fl \<and>
           (\<forall>lh\<in>heads. lh \<noteq> FreelistHead \<longrightarrow> lh \<noteq> HashHead (nat (hash (sint k))) \<longrightarrow>
              list_of s' lh = list_of s lh)"
proof -
  let ?lh = "HashHead (nat (hash (sint k)))"
  from inv have wf: "wellformed n s (lists_of s)" by (rule inv_wf)
  from k have h: "?lh \<in> heads" by (rule hash_head)
  from c have f: "find (\<lambda>b. dev (mem s b) = d \<and> blockno (mem s b) = k) (lists_of s ?lh) = None"
    by (simp add: cached_wf [OF wf k])
  from bread_miss_case [OF wf k f e, of p]
  obtain s' where s': "bread p d k s = Inr (b, s')"
    "wellformed n s' (moved b FreelistHead ?lh (lists_of s))"
    "\<forall>x. payload (mem s' x) =
       (if x = b
        then (payload (mem s b))\<lparr>dev := d, blockno := k, valid := True, refcnt := 1,
               lock := Some p, data := disk s (d, k)\<rparr>
        else payload (mem s x))"
    "disk s' = disk s" "io s' = io s @ [DiskRead d k]"
    "spin s' = spin s @ [Acquire (BucketLock (nat (hash (sint k)))), Acquire FreelistLock,
                               Release FreelistLock, Release (BucketLock (nat (hash (sint k))))]"
    by blast
  note fl = fields_of_payload [OF s'(3)]
  have ne: "FreelistHead \<noteq> ?lh" by simp
  note ml = moved_lists [OF s'(2) ne FreelistHead_heads h]
  have o: "list_of s' lh = list_of s lh"
    if "lh \<in> heads" "lh \<noteq> FreelistHead" "lh \<noteq> ?lh" for lh
    using ml(3) [OF that] wf_list_of [OF wf that(1)] wf_lists_of [OF wf that(1)] by simp
  from s'(2) have "cache_inv n s'" by (rule wf_inv)
  with s'(1,4,5,6) fl(1-6) fl(7) ml(1,2) e o show ?thesis
    by (simp add: bucket_then_pool_def)
qed

lemma inv_holder_bucket:
  assumes inv: "cache_inv n s" and b: "slot n b" and l: "lock (mem s b) \<noteq> None \<or> refcnt (mem s b) \<noteq> 0"
  shows "0 \<le> hash (sint (blockno (mem s b)))"
    and "nat (hash (sint (blockno (mem s b)))) < NHASH"
    and "b \<in> set (lists_of s (HashHead (nat (hash (sint (blockno (mem s b)))))))"
proof -
  from inv have wf: "wellformed n s (lists_of s)" by (rule inv_wf)
  from b obtain i where i: "b = Cache i" "i < n" by (auto simp: slot_iff)
  from wf_slot_cases [OF wf i(2)] wf_free [OF wf, of b] l i
  obtain h where h: "h < NHASH" "b \<in> set (lists_of s (HashHead h))" by auto
  from wf_hash [OF wf h] have e: "hash (sint (blockno (mem s b))) = int h" .
  then show "0 \<le> hash (sint (blockno (mem s b)))" by simp
  from e h show "nat (hash (sint (blockno (mem s b)))) < NHASH" by simp
  from e h show "b \<in> set (lists_of s (HashHead (nat (hash (sint (blockno (mem s b)))))))" by simp
qed

lemma cached_member:
  assumes "cached s d k = Some b"
  shows "b \<in> members s (HashHead (nat (hash (sint k))))"
  using assms by (auto simp: cached_def members_def split: option.splits dest: find_SomeD)

lemma brelse_keep_inv:
  assumes inv: "cache_inv n s" and b: "slot n b" and l: "holdingsleep p b s"
    and r: "refcnt (mem s b) \<noteq> 1"
  shows "\<exists>s'. brelse p b s = Inr s' \<and> cache_inv n s' \<and>
           mem s' = (mem s)(b := (mem s b)\<lparr>lock := None, refcnt := refcnt (mem s b) - 1\<rparr>) \<and>
           disk s' = disk s \<and> io s' = io s \<and>
           spin s' = spin s @ bucket_only (nat (hash (sint (blockno (mem s b))))) \<and>
           (\<forall>lh. list_of s' lh = list_of s lh)"
proof -
  from inv have wf: "wellformed n s (lists_of s)" by (rule inv_wf)
  from l have l': "lock (mem s b) = Some p" by (simp add: holdingsleep_def)
  then have "lock (mem s b) \<noteq> None \<or> refcnt (mem s b) \<noteq> 0" by simp
  note hb = inv_holder_bucket [OF inv b this]
  from brelse_keep [OF wf hb(2,3) l' r]
  obtain s' where s': "brelse p b s = Inr s'" "wellformed n s' (lists_of s)"
    "mem s' = (mem s)(b := (mem s b)\<lparr>lock := None, refcnt := refcnt (mem s b) - 1\<rparr>)"
    "disk s' = disk s" "io s' = io s"
    "spin s' = spin s @ [Acquire (BucketLock (nat (hash (sint (blockno (mem s b)))))),
                         Release (BucketLock (nat (hash (sint (blockno (mem s b))))))]"
    by blast
  have "list_of s' lh = list_of s lh" for lh
    by (rule list_of_cong) (simp add: s'(3))
  moreover from s'(2) have "cache_inv n s'" by (rule wf_inv)
  ultimately show ?thesis using s' by (simp add: bucket_only_def)
qed

lemma brelse_last_inv:
  assumes inv: "cache_inv n s" and b: "slot n b" and l: "holdingsleep p b s"
    and r: "refcnt (mem s b) = 1"
  shows "\<exists>s'. brelse p b s = Inr s' \<and> cache_inv n s' \<and>
           lock (mem s' b) = None \<and> refcnt (mem s' b) = 0 \<and>
           valid (mem s' b) = valid (mem s b) \<and> dev (mem s' b) = dev (mem s b) \<and>
           blockno (mem s' b) = blockno (mem s b) \<and> data (mem s' b) = data (mem s b) \<and>
           (\<forall>x. x \<noteq> b \<longrightarrow> valid (mem s' x) = valid (mem s x) \<and> dev (mem s' x) = dev (mem s x) \<and>
              blockno (mem s' x) = blockno (mem s x) \<and> lock (mem s' x) = lock (mem s x) \<and>
              refcnt (mem s' x) = refcnt (mem s x) \<and> data (mem s' x) = data (mem s x)) \<and>
           disk s' = disk s \<and> io s' = io s \<and>
           spin s' = spin s @ bucket_then_pool (nat (hash (sint (blockno (mem s b))))) \<and>
           list_of s' (HashHead (nat (hash (sint (blockno (mem s b)))))) =
             Some (remove1 b (lists_of s (HashHead (nat (hash (sint (blockno (mem s b)))))))) \<and>
           list_of s' FreelistHead = Some (b # lists_of s FreelistHead) \<and>
           (\<forall>lh\<in>heads. lh \<noteq> FreelistHead \<longrightarrow> lh \<noteq> HashHead (nat (hash (sint (blockno (mem s b))))) \<longrightarrow>
              list_of s' lh = list_of s lh)"
proof -
  let ?h = "nat (hash (sint (blockno (mem s b))))"
  from inv have wf: "wellformed n s (lists_of s)" by (rule inv_wf)
  from l have l': "lock (mem s b) = Some p" by (simp add: holdingsleep_def)
  then have "lock (mem s b) \<noteq> None \<or> refcnt (mem s b) \<noteq> 0" by simp
  note hb = inv_holder_bucket [OF inv b this]
  from hb(2) have hh: "HashHead ?h \<in> heads" by simp
  from brelse_last [OF wf hb(2,3) l' r]
  obtain s' where s': "brelse p b s = Inr s'"
    "wellformed n s' (moved b (HashHead ?h) FreelistHead (lists_of s))"
    "\<forall>x. payload (mem s' x) =
              (if x = b then (payload (mem s b))\<lparr>lock := None, refcnt := 0\<rparr>
               else payload (mem s x))"
    "disk s' = disk s" "io s' = io s"
    "spin s' = spin s @ [Acquire (BucketLock ?h), Acquire FreelistLock,
                               Release FreelistLock, Release (BucketLock ?h)]"
    by blast
  note fl = fields_of_payload [OF s'(3)]
  have ne: "HashHead ?h \<noteq> FreelistHead" by simp
  note ml = moved_lists [OF s'(2) ne hh FreelistHead_heads]
  have o: "list_of s' lh = list_of s lh"
    if "lh \<in> heads" "lh \<noteq> FreelistHead" "lh \<noteq> HashHead ?h" for lh
    using ml(3) [OF that(1,3,2)] wf_list_of [OF wf that(1)] wf_lists_of [OF wf that(1)] by simp
  from s'(2) have "cache_inv n s'" by (rule wf_inv)
  with s'(1,4,5,6) fl(1-6) fl(7) ml(1,2) o show ?thesis
    by (simp add: bucket_then_pool_def)
qed

lemma not_cached_free:
  assumes inv: "cache_inv n s" and b: "b \<in> members s FreelistHead"
  shows "cached s d k \<noteq> Some b"
proof
  assume "cached s d k = Some b"
  then have m: "b \<in> members s (HashHead (nat (hash (sint k))))" by (rule cached_member)
  from b inv obtain i where i: "b = Cache i" "i < n"
    unfolding cache_inv_def by (auto simp: heads_def)
  have "members s (HashHead (nat (hash (sint k)))) \<noteq> {}" using m by auto
  have hh: "HashHead (nat (hash (sint k))) \<in> heads"
    using hash_less [of "sint k"] by (cases "0 \<le> hash (sint k)") (simp_all add: NHASH_def)
  from inv i(2) have "\<exists>!lh. lh \<in> heads \<and> Cache i \<in> members s lh" by (simp add: cache_inv_def)
  moreover from m hh i(1) have "HashHead (nat (hash (sint k))) \<in> heads \<and>
      Cache i \<in> members s (HashHead (nat (hash (sint k))))" by simp
  moreover from b i(1) have "FreelistHead \<in> heads \<and> Cache i \<in> members s FreelistHead" by simp
  ultimately have "HashHead (nat (hash (sint k))) = FreelistHead" by blast
  then show False by simp
qed

lemma cache_inv_s_pinned: "cache_inv 2 s_pinned"
  unfolding s_pinned_def s_init_def by (rule cache_inv_after) (simp, code_simp)

subsection \<open>Spinlock events, reference counts, returning calls\<close>

lemma sint_dec: "0 < sint (r :: u32) \<Longrightarrow> sint (r - 1) = sint r - 1"
proof -
  assume a: "0 < sint r"
  have b: "sint r < 2 ^ 31" using sint_lt [of r] by simp
  have "sint (r - 1) = signed_take_bit 31 (sint r - 1)"
    by (simp add: sint_word_ariths)
  also have "\<dots> = sint r - 1"
    using a b by (intro signed_take_bit_int_eq_self) simp_all
  finally show ?thesis .
qed

lemma brelse_payload:
  "brelse p b s = Inr s' \<Longrightarrow>
   payload (mem s' x) =
     (if x = b then (payload (mem s b))\<lparr>lock := None, refcnt := refcnt (mem s b) - 1\<rparr>
      else payload (mem s x))"
  by (auto simp: brelse_def Let_def releasesleep_def split: if_splits)

lemma brelse_spin:
  "brelse p b s = Inr s' \<Longrightarrow>
   spin s' = spin s @
     (if refcnt (mem s b) = 1 then bucket_then_pool (nat (hash (sint (blockno (mem s b)))))
      else bucket_only (nat (hash (sint (blockno (mem s b))))))"
  by (auto simp: brelse_def Let_def releasesleep_def bucket_only_def bucket_then_pool_def
      split: if_splits)

lemma bpin_result:
  "bpin b s = Inr s' \<Longrightarrow>
   spin s' = spin s @ bucket_only (nat (hash (sint (blockno (mem s b))))) \<and>
   refcnt (mem s' b) = refcnt (mem s b) + 1"
  by (auto simp: bpin_def Let_def bucket_only_def split: if_splits)

lemma bunpin_result:
  "bunpin b s = Inr s' \<Longrightarrow>
   spin s' = spin s @ bucket_only (nat (hash (sint (blockno (mem s b))))) \<and>
   refcnt (mem s' b) = refcnt (mem s b) - 1"
  by (auto simp: bunpin_def Let_def bucket_only_def split: if_splits)

lemma bread_spin:
  assumes inv: "cache_inv n s" and e: "bread p d k s = Inr (b, s')"
  shows "spin s' = spin s @
     (if cached s d k = None then bucket_then_pool (nat (hash (sint k)))
      else bucket_only (nat (hash (sint k))))"
proof -
  from e have k: "0 \<le> hash (sint k)"
    using bread_fault [of k p d s] by (cases "hash (sint k) < 0") auto
  show ?thesis
  proof (cases "cached s d k")
    case None
    show ?thesis
    proof (cases "lists_of s FreelistHead")
      case Nil
      from bread_panic_inv [OF inv k None Nil, of p] e show ?thesis by simp
    next
      case (Cons c fl)
      from bread_miss_inv [OF inv k None Cons, of p] e None show ?thesis by auto
    qed
  next
    case (Some c)
    show ?thesis
    proof (cases "lock (mem s c) = None")
      case True
      from bread_hit_inv [OF inv k Some True, of p] e Some show ?thesis by auto
    next
      case False
      from bread_sleeps_inv [OF inv k Some False, of p] e show ?thesis by simp
    qed
  qed
qed

lemma returns_slot: "map_sum id fst x = Inr b \<Longrightarrow> \<exists>s'. x = Inr (b, s')"
  by (cases x) auto

lemma returns_state: "\<not> isl x \<Longrightarrow> \<exists>s'. x = Inr s'"
  by (cases x) auto


lemma brelse_refcnt:
  assumes "brelse p b s = Inr s'"
  shows "refcnt (mem s' b) = refcnt (mem s b) - 1"
  using payload_fieldsD(5) [OF brelse_payload [OF assms, of b]] by simp

subsection \<open>Which list a slot is in\<close>

lemma list_of_binit:
  "list_of (binit n s0) FreelistHead = Some (rev (map Cache [0..<n]))"
  "h < NHASH \<Longrightarrow> list_of (binit n s0) (HashHead h) = Some []"
proof -
  have st: "linked (mem (binit n s0)) (init_lists n)" by (rule struct_binit)
  from struct_ring [OF st FreelistHead_heads]
  show "list_of (binit n s0) FreelistHead = Some (rev (map Cache [0..<n]))"
    by (simp add: ring_list_of init_lists_def)
  assume "h < NHASH"
  then have "HashHead h \<in> heads" by simp
  from struct_ring [OF st this]
  show "list_of (binit n s0) (HashHead h) = Some []"
    by (simp add: ring_list_of init_lists_def)
qed

lemma inv_distinct:
  assumes "cache_inv n s" and "lh \<in> heads"
  shows "list_of s lh = Some (lists_of s lh)" and "distinct (lists_of s lh)"
    and "members s lh = set (lists_of s lh)"
proof -
  from assms(1) have wf: "wellformed n s (lists_of s)" by (rule inv_wf)
  from wf_list_of [OF wf assms(2)] show l: "list_of s lh = Some (lists_of s lh)" .
  from struct_ring [OF wf_struct [OF wf] assms(2)] show "distinct (lists_of s lh)"
    by (simp add: ring_def)
  from l show "members s lh = set (lists_of s lh)" by (simp add: members_def)
qed

lemma inv_referenced:
  assumes inv: "cache_inv n s" and i: "i < n" and r: "refcnt (mem s (Cache i)) \<noteq> 0"
  shows "\<exists>h<NHASH. Cache i \<in> members s (HashHead h)"
proof -
  from i have "slot n (Cache i)" by simp
  from inv_holder_bucket(2,3) [OF inv this] r
  have h: "nat (hash (sint (blockno (mem s (Cache i))))) < NHASH"
    "Cache i \<in> set (lists_of s (HashHead (nat (hash (sint (blockno (mem s (Cache i))))))))"
    by simp_all
  from h(1) have "HashHead (nat (hash (sint (blockno (mem s (Cache i)))))) \<in> heads" by simp
  from inv_distinct(3) [OF inv this] h show ?thesis by blast
qed

lemma miss_moves:
  assumes inv: "cache_inv n s" and c: "cached s d k = None" and e: "bread p d k s = Inr (b, s')"
  shows "b \<in> members s FreelistHead \<and> b \<notin> members s' FreelistHead \<and>
         b \<in> members s' (HashHead (nat (hash (sint k))))"
proof -
  from e have k: "0 \<le> hash (sint k)"
    using bread_fault [of k p d s] by (cases "hash (sint k) < 0") auto
  show ?thesis
  proof (cases "lists_of s FreelistHead")
    case Nil
    from bread_panic_inv [OF inv k c Nil, of p] e show ?thesis by simp
  next
    case (Cons c' fl)
    from bread_miss_inv [OF inv k c Cons, of p] e
    have b: "b = c'" and l: "list_of s' FreelistHead = Some fl"
      "list_of s' (HashHead (nat (hash (sint k)))) =
         Some (b # lists_of s (HashHead (nat (hash (sint k)))))"
      by auto
    from inv_distinct(2,3) [OF inv FreelistHead_heads] Cons b
    have "b \<in> members s FreelistHead" "b \<notin> set fl" by auto
    with l show ?thesis by (simp add: members_def)
  qed
qed

lemma release_moves:
  assumes inv: "cache_inv n s" and b: "slot n b" and e: "brelse p b s = Inr s'"
    and z: "refcnt (mem s' b) = 0"
  shows "b \<in> members s (HashHead (nat (hash (sint (blockno (mem s b)))))) \<and>
         b \<notin> members s' (HashHead (nat (hash (sint (blockno (mem s b)))))) \<and>
         b \<in> members s' FreelistHead"
proof -
  let ?lh = "HashHead (nat (hash (sint (blockno (mem s b)))))"
  from e have l: "holdingsleep p b s" using brelse_panic [of p b s] by auto
  then have "lock (mem s b) \<noteq> None \<or> refcnt (mem s b) \<noteq> 0" by (simp add: holdingsleep_def)
  note hb = inv_holder_bucket [OF inv b this]
  from hb(2) have hh: "?lh \<in> heads" by simp
  note d = inv_distinct [OF inv hh]
  from z brelse_refcnt [OF e] have r: "refcnt (mem s b) = 1" by simp
  from brelse_last_inv [OF inv b l r] e
  have "list_of s' ?lh = Some (remove1 b (lists_of s ?lh))"
    "list_of s' FreelistHead = Some (b # lists_of s FreelistHead)"
    by auto
  with d hb(3) show ?thesis by (simp add: members_def)
qed

subsection \<open>Exhausting and reusing the free list\<close>

lemma bget_no_buffers:
  assumes k: "0 \<le> hash (sint k)"
    and xs: "list_of s (HashHead (nat (hash (sint k)))) = Some xs"
    and f: "find (\<lambda>b. dev (mem s b) = d \<and> blockno (mem s b) = k) xs = None"
    and fl: "list_of s FreelistHead = Some fl"
    and r: "\<forall>b\<in>set fl. refcnt (mem s b) \<noteq> 0"
  shows "bget p d k s = Inl (Panic ''bget: no buffers'')"
proof -
  let ?lh = "HashHead (nat (hash (sint k)))"
  from xs have "bget_scan (mem s) ?lh d k (next (mem s ?lh)) =
      Some (find (\<lambda>b. dev (mem s b) = d \<and> blockno (mem s b) = k) xs)"
    unfolding list_of_def by (rule walk_bget_scan)
  with f have 1: "bget_scan (mem s) ?lh d k (next (mem s ?lh)) = Some None" by simp
  from fl have "bget_free (mem s) (next (mem s FreelistHead)) =
      Some (find (\<lambda>b. refcnt (mem s b) = 0) fl)"
    unfolding list_of_def by (rule walk_bget_free)
  moreover from r have "find (\<lambda>b. refcnt (mem s b) = 0) fl = None" by (simp add: find_None_iff)
  ultimately have 2: "bget_free (mem s) (next (mem s FreelistHead)) = Some None" by simp
  from k 1 2 show ?thesis by (simp add: bget_def Let_def)
qed

lemma fill:
  assumes "wellformed K s L"
    and "\<forall>h<NHASH. \<forall>b\<in>set (L (HashHead h)). (dev (mem s b), blockno (mem s b)) \<in> set ids"
    and "length (L FreelistHead) = length reqs + m"
    and "distinct (ids @ map snd reqs)"
    and "\<forall>r\<in>set reqs. 0 \<le> hash (sint (snd (snd r)))"
  shows "\<exists>s' L'. run (map fetch reqs) s = Inr s' \<and> wellformed K s' L' \<and>
           (\<forall>h<NHASH. \<forall>b\<in>set (L' (HashHead h)).
              (dev (mem s' b), blockno (mem s' b)) \<in> set (ids @ map snd reqs)) \<and>
           length (L' FreelistHead) = m"
  using assms
proof (induction reqs arbitrary: s L ids)
  case Nil
  then show ?case by auto
next
  case (Cons r reqs)
  obtain p d k where r: "r = (p, d, k)" by (cases r) auto
  let ?h = "nat (hash (sint k))"
  let ?lh = "HashHead ?h"
  note wf = Cons.prems(1)
  from Cons.prems(5) r have k: "0 \<le> hash (sint k)" by simp
  then have h: "?h < NHASH" by (rule hash_nat)
  from Cons.prems(4) r have new: "(d, k) \<notin> set ids" by auto
  have f: "find (\<lambda>b. dev (mem s b) = d \<and> blockno (mem s b) = k) (L ?lh) = None"
    using Cons.prems(2) h new by (auto simp: find_None_iff)
  from Cons.prems(3) obtain b fl where e: "L FreelistHead = b # fl"
    by (cases "L FreelistHead") auto
  let ?L = "moved b FreelistHead ?lh L"
  from bread_miss_case [OF wf k f e, of p]
  obtain s1 where s1: "bread p d k s = Inr (b, s1)" "wellformed K s1 ?L"
    and pl: "\<forall>x. payload (mem s1 x) =
              (if x = b
               then (payload (mem s b))\<lparr>dev := d, blockno := k, valid := True, refcnt := 1,
                      lock := Some p, data := disk s (d, k)\<rparr>
               else payload (mem s x))"
    by blast
  note fp = fields_of_payload [OF pl]
  from wf have st: "linked (mem s) L" by (rule wf_struct)
  have b: "b \<in> set (L FreelistHead)" using e by simp
  have ids': "(dev (mem s1 x), blockno (mem s1 x)) \<in> set (ids @ [(d, k)])"
    if "h' < NHASH" "x \<in> set (?L (HashHead h'))" for h' x
  proof (cases "x = b")
    case True
    with fp(2,3) show ?thesis by simp
  next
    case False
    from that(1) have "HashHead h' \<in> heads" by simp
    from set_moved [OF st FreelistHead_heads b this, of ?lh] that(2) False
    have "x \<in> set (L (HashHead h'))" by (auto split: if_splits)
    with Cons.prems(2) that(1) have "(dev (mem s x), blockno (mem s x)) \<in> set ids" by blast
    with fp(7) [OF False] show ?thesis by simp
  qed
  have len: "length (?L FreelistHead) = length reqs + m"
    using Cons.prems(3) e by (simp add: moved_src)
  have dist: "distinct ((ids @ [(d, k)]) @ map snd reqs)"
    using Cons.prems(4) r by simp
  have hs: "\<forall>r\<in>set reqs. 0 \<le> hash (sint (snd (snd r)))" using Cons.prems(5) by simp
  from Cons.IH [OF s1(2) _ len dist hs] ids'
  obtain s' L' where "run (map fetch reqs) s1 = Inr s'" "wellformed K s' L'"
    "\<forall>h<NHASH. \<forall>b\<in>set (L' (HashHead h)).
        (dev (mem s' b), blockno (mem s' b)) \<in> set ((ids @ [(d, k)]) @ map snd reqs)"
    "length (L' FreelistHead) = m"
    by blast
  with s1(1) r show ?case by auto
qed

lemma exhaustion:
  assumes z: "\<forall>i<K. refcnt (mem s0 (Cache i)) = 0"
    and len: "length reqs = K"
    and dist: "distinct (map snd (reqs @ [(p, d, k)]))"
    and hs: "\<forall>r\<in>set (reqs @ [(p, d, k)]). 0 \<le> hash (sint (snd (snd r)))"
  shows "\<exists>s'. run (map fetch reqs) (binit K s0) = Inr s' \<and>
           bread p d k s' = Inl (Panic ''bget: no buffers'')"
proof -
  from z have wf: "wellformed K (binit K s0) (init_lists K)" by (intro wf_binit) simp
  have "\<exists>s' L'. run (map fetch reqs) (binit K s0) = Inr s' \<and> wellformed K s' L' \<and>
           (\<forall>h<NHASH. \<forall>b\<in>set (L' (HashHead h)).
              (dev (mem s' b), blockno (mem s' b)) \<in> set ([] @ map snd reqs)) \<and>
           length (L' FreelistHead) = 0"
    using wf
  proof (rule fill)
    show "\<forall>h<NHASH. \<forall>b\<in>set (init_lists K (HashHead h)).
        (dev (mem (binit K s0) b), blockno (mem (binit K s0) b)) \<in> set []"
      by (simp add: set_init_lists)
    show "length (init_lists K FreelistHead) = length reqs + 0"
      by (simp add: init_lists_def len)
    show "distinct ([] @ map snd reqs)" using dist by simp
    show "\<forall>r\<in>set reqs. 0 \<le> hash (sint (snd (snd r)))" using hs by simp
  qed
  then obtain s' L' where s': "run (map fetch reqs) (binit K s0) = Inr s'" "wellformed K s' L'"
    and ids: "\<forall>h<NHASH. \<forall>b\<in>set (L' (HashHead h)).
        (dev (mem s' b), blockno (mem s' b)) \<in> set (map snd reqs)"
    and e: "L' FreelistHead = []"
    by auto
  from hs have k: "0 \<le> hash (sint k)" by simp
  from dist have "(d, k) \<notin> set (map snd reqs)" by simp
  with ids hash_nat [OF k]
  have f: "find (\<lambda>b. dev (mem s' b) = d \<and> blockno (mem s' b) = k)
      (L' (HashHead (nat (hash (sint k))))) = None"
    by (auto simp: find_None_iff)
  from bread_panic_case [OF s'(2) k f e, of p] s'(1) show ?thesis by blast
qed


lemma step_state_after: "\<not> isl (step c s) \<Longrightarrow> step c s = Inr (state_after [c] s)"
  by (cases "step c s") (auto simp: state_after_def)




subsection \<open>Suspended fetches and the count of references\<close>

lemma bget_hit_split:
  "bget_hit p h b s =
     (case acquiresleep p b (bget_hit_enter h b s) of Inl e \<Rightarrow> Inl e | Inr s3 \<Rightarrow> Inr (b, s3))"
  by (simp add: bget_hit_def bget_hit_enter_def Let_def)

lemma bget_claim_split:
  "bget_claim p h d n b s =
     (case acquiresleep p b (bget_claim_enter h d n b s) of Inl e \<Rightarrow> Inl e | Inr s3 \<Rightarrow> Inr (b, s3))"
  by (simp add: bget_claim_def bget_claim_enter_def Let_def)

lemma bget_split:
  "bget p d n s =
     (case bget_enter d n s of
        Inl e \<Rightarrow> Inl e
      | Inr (b, s1) \<Rightarrow> (case acquiresleep p b s1 of Inl e \<Rightarrow> Inl e | Inr s2 \<Rightarrow> Inr (b, s2)))"
  by (simp add: bget_def bget_enter_def Let_def bget_hit_split bget_claim_split
      split: option.splits)

lemma bread_split:
  "bread p d n s =
     (case bget_enter d n s of Inl e \<Rightarrow> Inl e | Inr (b, s1) \<Rightarrow> bread_wake p b s1)"
  by (simp add: bread_def bread_wake_def bget_split split: sum.splits prod.splits)


lemma bread_wake_free:
  assumes "lock (mem t b) = None"
  shows "\<exists>t'. bread_wake p b t = Inr (b, t') \<and>
           mem t' = (mem t)(b :=
              (if valid (mem t b) then (mem t b)\<lparr>lock := Some p\<rparr>
               else (mem t b)\<lparr>lock := Some p,
                      data := disk t (dev (mem t b), blockno (mem t b)), valid := True\<rparr>)) \<and>
           disk t' = disk t \<and>
           io t' = io t @ (if valid (mem t b) then [] else [DiskRead (dev (mem t b)) (blockno (mem t b))]) \<and>
           spin t' = spin t"
  using assms by (simp add: bread_wake_def acquiresleep_def virtio_disk_rw_def Let_def)

lemma bread_wake_slot: "bread_wake p b t = Inr (b', t') \<Longrightarrow> b' = b \<and> lock (mem t b) = None"
  by (auto simp: bread_wake_def acquiresleep_def split: if_splits)


lemma unat_inc: "(r :: u32) \<noteq> - 1 \<Longrightarrow> unat (r + 1) = unat r + 1"
proof -
  assume "r \<noteq> - 1"
  then have "1 + r \<noteq> 0" by (metis add.commute add_eq_0_iff)
  then have "unat (1 + r) = Suc (unat r)" by (rule unatSuc)
  then show ?thesis by (simp add: add.commute)
qed

lemma unat_dec: "(r :: u32) \<noteq> 0 \<Longrightarrow> unat (r - 1) = unat r - 1"
  by (rule unat_minus_one)

lemma unat_pos: "0 < unat (r :: u32) \<Longrightarrow> r \<noteq> 0"
  by auto

lemma sleepers_Nil [simp]: "sleepers [] b = 0"
  by (simp add: sleepers_def)

lemma sleepers_Cons [simp]:
  "sleepers (e # sl) b = (if place e = b then Suc (sleepers sl b) else sleepers sl b)"
  by (simp add: sleepers_def)

lemma sleepers_pos: "e \<in> set sl \<Longrightarrow> 0 < sleepers sl (place e)"
  by (induction sl) auto

lemma sleepers_remove1:
  "e \<in> set sl \<Longrightarrow>
   sleepers (remove1 e sl) b = (if place e = b then sleepers sl b - 1 else sleepers sl b)"
proof (induction sl)
  case Nil
  then show ?case by simp
next
  case (Cons a sl)
  show ?case
  proof (cases "e = a")
    case True
    then show ?thesis by simp
  next
    case False
    with Cons.prems have e: "e \<in> set sl" by simp
    from sleepers_pos [OF e] Cons.IH [OF e] False show ?thesis by auto
  qed
qed

lemma sleepers_zero: "sleepers sl b = 0 \<Longrightarrow> e \<in> set sl \<Longrightarrow> place e \<noteq> b"
  using sleepers_pos [of e sl] by auto

lemma slot_Cache: "slot n b \<Longrightarrow> \<exists>i<n. b = Cache i"
  by (cases b) auto

lemma countedD:
  assumes "counted n s pn sl" and "slot n b"
  shows "unat (refcnt (mem s b)) = pn b + sleepers sl b + (if lock (mem s b) = None then 0 else 1)"
  using assms slot_Cache [of n b] by (auto simp: counted_def)

lemma counted_sleeper:
  assumes "counted n s pn sl" and "e \<in> set sl"
  shows "slot n (place e)" "dev (mem s (place e)) = want_dev e"
    "blockno (mem s (place e)) = want_blockno e"
  using assms by (auto simp: counted_def)

lemma counted_change:
  assumes c: "counted n s pn sl"
    and o: "\<And>x. x \<noteq> b \<Longrightarrow> refcnt (mem s' x) = refcnt (mem s x) \<and> lock (mem s' x) = lock (mem s x) \<and>
              dev (mem s' x) = dev (mem s x) \<and> blockno (mem s' x) = blockno (mem s x)"
    and p: "\<And>x. x \<noteq> b \<Longrightarrow> pn' x = pn x"
    and q: "\<And>x. x \<noteq> b \<Longrightarrow> sleepers sl' x = sleepers sl x"
    and old: "\<And>e. e \<in> set sl' \<Longrightarrow> place e \<noteq> b \<Longrightarrow> e \<in> set sl"
    and ids: "\<And>e. e \<in> set sl' \<Longrightarrow> place e = b \<Longrightarrow>
              slot n b \<and> dev (mem s' b) = want_dev e \<and> blockno (mem s' b) = want_blockno e"
    and cnt: "slot n b \<Longrightarrow> unat (refcnt (mem s' b)) =
              pn' b + sleepers sl' b + (if lock (mem s' b) = None then 0 else 1)"
  shows "counted n s' pn' sl'"
  unfolding counted_def
proof (intro conjI allI impI ballI)
  fix i assume i: "i < n"
  show "unat (refcnt (mem s' (Cache i))) =
        pn' (Cache i) + sleepers sl' (Cache i) + (if lock (mem s' (Cache i)) = None then 0 else 1)"
  proof (cases "Cache i = b")
    case True
    with i cnt show ?thesis by auto
  next
    case False
    with o [of "Cache i"] p [of "Cache i"] q [of "Cache i"] countedD [OF c, of "Cache i"] i
    show ?thesis by simp
  qed
next
  fix e assume e: "e \<in> set sl'"
  show "slot n (place e)" "dev (mem s' (place e)) = want_dev e"
    "blockno (mem s' (place e)) = want_blockno e"
  proof -
    have "slot n (place e) \<and> dev (mem s' (place e)) = want_dev e \<and>
          blockno (mem s' (place e)) = want_blockno e"
    proof (cases "place e = b")
      case True
      with ids [OF e] show ?thesis by simp
    next
      case False
      from old [OF e False] have "e \<in> set sl" .
      from counted_sleeper [OF c this] o [OF False] show ?thesis by simp
    qed
    then show "slot n (place e)" "dev (mem s' (place e)) = want_dev e"
      "blockno (mem s' (place e)) = want_blockno e" by simp_all
  qed
qed

lemma inv_slot:
  assumes "cache_inv n s" and "lh \<in> heads" and "b \<in> members s lh"
  shows "slot n b"
proof -
  from assms have "b \<in> Cache ` {..<n}" by (auto simp: cache_inv_def)
  then show ?thesis by auto
qed

lemma inv_free:
  assumes "cache_inv n s" and "b \<in> members s FreelistHead"
  shows "refcnt (mem s b) = 0" "lock (mem s b) = None"
  using assms by (auto simp: cache_inv_def)

lemma counted_binit:
  assumes "\<forall>i<n. refcnt (mem s0 (Cache i)) = 0"
  shows "counted n (binit n s0) (\<lambda>_. 0) []"
proof -
  have "refcnt (mem (binit n s0) (Cache i)) = 0 \<and> lock (mem (binit n s0) (Cache i)) = None"
    if "i < n" for i
    using payload_fieldsD [OF payload_binit [of n s0 "Cache i"]] that assms by simp
  then show ?thesis by (simp add: counted_def)
qed

lemma bget_enter_hit_inv:
  assumes inv: "cache_inv n s" and k: "0 \<le> hash (sint k)" and c: "cached s d k = Some b"
  shows "\<exists>s1. bget_enter d k s = Inr (b, s1) \<and> cache_inv n s1 \<and>
           mem s1 = (mem s)(b := (mem s b)\<lparr>refcnt := refcnt (mem s b) + 1\<rparr>) \<and>
           dev (mem s b) = d \<and> blockno (mem s b) = k \<and>
           disk s1 = disk s \<and> io s1 = io s \<and>
           spin s1 = spin s @ bucket_only (nat (hash (sint k))) \<and>
           (\<forall>lh. list_of s1 lh = list_of s lh)"
proof -
  let ?h = "nat (hash (sint k))"
  let ?s1 = "bget_hit_enter ?h b (acquire (BucketLock ?h) s)"
  from inv have wf: "wellformed n s (lists_of s)" by (rule inv_wf)
  from k have h: "?h < NHASH" by (rule hash_nat)
  from c have f: "find (\<lambda>b. dev (mem s b) = d \<and> blockno (mem s b) = k)
      (lists_of s (HashHead ?h)) = Some b"
    by (simp add: cached_wf [OF wf k])
  then have b: "b \<in> set (lists_of s (HashHead ?h))"
    and id: "dev (mem s b) = d \<and> blockno (mem s b) = k"
    by (auto dest: find_SomeD)
  have eq: "bget_enter d k s = Inr (b, ?s1)"
    using k f wf_scan [OF wf h, of d k] by (simp add: bget_enter_def Let_def)
  have m: "mem ?s1 = (mem s)(b := (mem s b)\<lparr>refcnt := refcnt (mem s b) + 1\<rparr>)"
    by (simp add: bget_hit_enter_def Let_def)
  from wf h b m have "wellformed n ?s1 (lists_of s)" by (rule wf_upd_bucket) simp_all
  then have i: "cache_inv n ?s1" by (rule wf_inv)
  have l: "list_of ?s1 lh = list_of s lh" for lh
    by (rule list_of_cong) (simp add: m)
  have o: "disk ?s1 = disk s" "io ?s1 = io s" "spin ?s1 = spin s @ bucket_only ?h"
    by (simp_all add: bget_hit_enter_def Let_def bucket_only_def)
  from eq i m id o l show ?thesis by blast
qed

text \<open>What a fetch that returns has done.\<close>

lemma bread_returns_cases:
  assumes inv: "cache_inv n s" and e: "bread p d k s = Inr (b, s')"
  shows "0 \<le> hash (sint k) \<and>
         ((cached s d k = Some b \<and> lock (mem s b) = None) \<or>
          (cached s d k = None \<and> (\<exists>fl. lists_of s FreelistHead = b # fl)))"
proof -
  have k: "0 \<le> hash (sint k)"
  proof (rule ccontr)
    assume "\<not> 0 \<le> hash (sint k)"
    then have "bread p d k s = Inl OutOfBounds" by (simp add: bread_fault)
    with e show False by simp
  qed
  show ?thesis
  proof (cases "cached s d k")
    case None
    show ?thesis
    proof (cases "lists_of s FreelistHead")
      case Nil
      from bread_panic_inv [OF inv k None Nil, of p] e show ?thesis by simp
    next
      case (Cons b0 fl)
      from bread_miss_inv [OF inv k None Cons, of p] e have "b0 = b" by auto
      with k None Cons show ?thesis by simp
    qed
  next
    case (Some b0)
    show ?thesis
    proof (cases "lock (mem s b0) = None")
      case True
      from bread_hit_inv [OF inv k Some True, of p] e have "b0 = b" by auto
      with k Some True show ?thesis by simp
    next
      case False
      from bread_sleeps_inv [OF inv k Some False, of p] e show ?thesis by simp
    qed
  qed
qed

lemma fetch_counted:
  assumes inv: "cache_inv n s" and c: "counted n s pn sl" and r: "room s d k"
    and e: "bread p d k s = Inr (b, s')"
  shows "cache_inv n s' \<and> counted n s' pn sl"
proof -
  from bread_returns_cases [OF inv e]
  have k: "0 \<le> hash (sint k)"
    and cs: "(cached s d k = Some b \<and> lock (mem s b) = None) \<or>
          (cached s d k = None \<and> (\<exists>fl. lists_of s FreelistHead = b # fl))"
    by simp_all
  from cs show ?thesis
  proof
    assume a: "cached s d k = Some b \<and> lock (mem s b) = None"
    then have cb: "cached s d k = Some b" and l: "lock (mem s b) = None" by simp_all
    from bread_hit_inv [OF inv k cb l, of p] e
    have i: "cache_inv n s'"
      and m: "mem s' = (mem s)(b :=
              (if valid (mem s b)
               then (mem s b)\<lparr>refcnt := refcnt (mem s b) + 1, lock := Some p\<rparr>
               else (mem s b)\<lparr>refcnt := refcnt (mem s b) + 1, lock := Some p,
                      data := disk s (d, k), valid := True\<rparr>))"
      by auto
    from r cb have nm: "refcnt (mem s b) \<noteq> - 1" by (simp add: room_def)
    have "counted n s' pn sl"
    proof (rule counted_change [OF c, where b = b])
      fix x assume "x \<noteq> b"
      then show "refcnt (mem s' x) = refcnt (mem s x) \<and> lock (mem s' x) = lock (mem s x) \<and>
              dev (mem s' x) = dev (mem s x) \<and> blockno (mem s' x) = blockno (mem s x)"
        by (simp add: m)
    next
      fix e assume "e \<in> set sl" "place e = b"
      with counted_sleeper [OF c, of e]
      show "slot n b \<and> dev (mem s' b) = want_dev e \<and> blockno (mem s' b) = want_blockno e"
        by (simp add: m)
    next
      assume "slot n b"
      from countedD [OF c this] l unat_inc [OF nm]
      show "unat (refcnt (mem s' b)) =
              pn b + sleepers sl b + (if lock (mem s' b) = None then 0 else 1)"
        by (simp add: m)
    qed simp_all
    with i show ?thesis by simp
  next
    assume a: "cached s d k = None \<and> (\<exists>fl. lists_of s FreelistHead = b # fl)"
    then obtain fl where cn: "cached s d k = None" and fl: "lists_of s FreelistHead = b # fl"
      by blast
    have fh: "FreelistHead \<in> heads" by (simp add: heads_def)
    from inv_distinct(3) [OF inv fh] fl have bm: "b \<in> members s FreelistHead" by simp
    from inv_free [OF inv bm] have z: "refcnt (mem s b) = 0" "lock (mem s b) = None" .
    from inv_slot [OF inv fh bm] have sb: "slot n b" .
    from countedD [OF c sb] z have zz: "pn b = 0" "sleepers sl b = 0" by simp_all
    from bread_miss_inv [OF inv k cn fl, of p] e
    have i: "cache_inv n s'"
      and f: "refcnt (mem s' b) = 1" "lock (mem s' b) = Some p"
      and o: "\<forall>x. x \<noteq> b \<longrightarrow> valid (mem s' x) = valid (mem s x) \<and> dev (mem s' x) = dev (mem s x) \<and>
              blockno (mem s' x) = blockno (mem s x) \<and> lock (mem s' x) = lock (mem s x) \<and>
              refcnt (mem s' x) = refcnt (mem s x) \<and> data (mem s' x) = data (mem s x)"
      by auto
    have "counted n s' pn sl"
    proof (rule counted_change [OF c, where b = b])
      fix x assume "x \<noteq> b"
      with o show "refcnt (mem s' x) = refcnt (mem s x) \<and> lock (mem s' x) = lock (mem s x) \<and>
              dev (mem s' x) = dev (mem s x) \<and> blockno (mem s' x) = blockno (mem s x)"
        by simp
    next
      fix e assume "e \<in> set sl" "place e = b"
      with sleepers_zero [OF zz(2), of e]
      show "slot n b \<and> dev (mem s' b) = want_dev e \<and> blockno (mem s' b) = want_blockno e"
        by simp
    next
      from f zz show "unat (refcnt (mem s' b)) =
              pn b + sleepers sl b + (if lock (mem s' b) = None then 0 else 1)"
        by simp
    qed simp_all
    with i show ?thesis by simp
  qed
qed

lemma bget_enter_fault: "hash (sint k) < 0 \<Longrightarrow> bget_enter d k s = Inl OutOfBounds"
  by (simp add: bget_enter_def)

lemma bread_wake_cases: "bread_wake p b s = Inl e \<Longrightarrow> e = Sleeps b"
  by (auto simp: bread_wake_def acquiresleep_def split: if_splits)

text \<open>
  The first part of a miss: the state is that of the whole \<open>bget\<close>, but for the content
  access, which nobody has yet.
\<close>

lemma bget_enter_miss_inv:
  assumes inv: "cache_inv n s" and k: "0 \<le> hash (sint k)"
    and c: "cached s d k = None" and e: "lists_of s FreelistHead = b # fl"
  shows "\<exists>s1. bget_enter d k s = Inr (b, s1) \<and> cache_inv n s1 \<and>
           refcnt (mem s1 b) = 1 \<and> lock (mem s1 b) = None \<and>
           dev (mem s1 b) = d \<and> blockno (mem s1 b) = k \<and> \<not> valid (mem s1 b) \<and>
           (\<forall>x. x \<noteq> b \<longrightarrow> refcnt (mem s1 x) = refcnt (mem s x) \<and> lock (mem s1 x) = lock (mem s x) \<and>
              dev (mem s1 x) = dev (mem s x) \<and> blockno (mem s1 x) = blockno (mem s x))"
proof -
  let ?h = "nat (hash (sint k))"
  let ?L = "moved b FreelistHead (HashHead ?h) (lists_of s)"
  from inv have wf: "wellformed n s (lists_of s)" by (rule inv_wf)
  from k have h: "?h < NHASH" by (rule hash_nat)
  from c have f: "find (\<lambda>b. dev (mem s b) = d \<and> blockno (mem s b) = k)
      (lists_of s (HashHead ?h)) = None"
    by (simp add: cached_wf [OF wf k])
  from bget_miss_case [OF wf k f e, of 0]
  obtain s' where s': "bget 0 d k s = Inr (b, s')" "wellformed n s' ?L"
    "\<forall>x. payload (mem s' x) =
              (if x = b
               then (payload (mem s b))\<lparr>dev := d, blockno := k, valid := False, refcnt := 1,
                      lock := Some 0\<rparr>
               else payload (mem s x))"
    by blast
  from s'(1) obtain s1 where s1: "bget_enter d k s = Inr (b, s1)" "acquiresleep 0 b s1 = Inr s'"
    by (auto simp: bget_split split: sum.splits prod.splits)
  from s1(2) have l: "lock (mem s1 b) = None"
    and m': "mem s' = (mem s1)(b := (mem s1 b)\<lparr>lock := Some 0\<rparr>)"
    by (auto simp: acquiresleep_def split: if_splits)
  from l have "(mem s1 b)\<lparr>lock := None\<rparr> = mem s1 b" by (cases "mem s1 b") simp
  then have m: "mem s1 = (mem s')(b := (mem s' b)\<lparr>lock := None\<rparr>)"
    by (simp add: m' fun_eq_iff)
  have bb: "b \<in> set (?L (HashHead ?h))" by (simp add: moved_dst)
  from s'(2) h bb m have "wellformed n s1 ?L" by (rule wf_upd_bucket) simp_all
  then have i: "cache_inv n s1" by (rule wf_inv)
  note fs = fields_of_payload [OF s'(3)]
  have fb: "refcnt (mem s1 b) = 1 \<and> dev (mem s1 b) = d \<and> blockno (mem s1 b) = k \<and> \<not> valid (mem s1 b)"
    using fs(1,2,3,5) by (simp add: m)
  have fo: "refcnt (mem s1 x) = refcnt (mem s x) \<and> lock (mem s1 x) = lock (mem s x) \<and>
              dev (mem s1 x) = dev (mem s x) \<and> blockno (mem s1 x) = blockno (mem s x)"
    if "x \<noteq> b" for x
    using fs(7) [OF that] that by (simp add: m)
  from s1(1) i fb l fo show ?thesis by blast
qed

text \<open>What the first part of a fetch has done.\<close>

lemma bget_enter_cases:
  assumes inv: "cache_inv n s" and e: "bget_enter d k s = Inr (b, s')"
  shows "0 \<le> hash (sint k) \<and>
         (cached s d k = Some b \<or>
          (cached s d k = None \<and> (\<exists>fl. lists_of s FreelistHead = b # fl)))"
proof -
  have k: "0 \<le> hash (sint k)"
  proof (rule ccontr)
    assume "\<not> 0 \<le> hash (sint k)"
    then have "bget_enter d k s = Inl OutOfBounds" by (simp add: bget_enter_fault)
    with e show False by simp
  qed
  show ?thesis
  proof (cases "cached s d k")
    case None
    show ?thesis
    proof (cases "lists_of s FreelistHead")
      case Nil
      from bread_panic_inv [OF inv k None Nil, of 0] e
      have "bread_wake 0 b s' = Inl (Panic ''bget: no buffers'')" by (simp add: bread_split)
      from bread_wake_cases [OF this] show ?thesis by simp
    next
      case (Cons b0 fl)
      from bget_enter_miss_inv [OF inv k None Cons] e have "b0 = b" by auto
      with k None Cons show ?thesis by simp
    qed
  next
    case (Some b0)
    from bget_enter_hit_inv [OF inv k Some] e have "b0 = b" by auto
    with k Some show ?thesis by simp
  qed
qed

lemma enter_counted:
  assumes inv: "cache_inv n s" and c: "counted n s pn sl" and r: "room s d k"
    and e: "bget_enter d k s = Inr (b, s')"
  shows "cache_inv n s' \<and> counted n s' pn (Sleeper p b d k # sl)"
proof -
  from bget_enter_cases [OF inv e]
  have k: "0 \<le> hash (sint k)"
    and cs: "cached s d k = Some b \<or>
          (cached s d k = None \<and> (\<exists>fl. lists_of s FreelistHead = b # fl))"
    by simp_all
  from cs show ?thesis
  proof
    assume cb: "cached s d k = Some b"
    from bget_enter_hit_inv [OF inv k cb] e
    have i: "cache_inv n s'"
      and m: "mem s' = (mem s)(b := (mem s b)\<lparr>refcnt := refcnt (mem s b) + 1\<rparr>)"
      and id: "dev (mem s b) = d" "blockno (mem s b) = k"
      by auto
    from r cb have nm: "refcnt (mem s b) \<noteq> - 1" by (simp add: room_def)
    from k have hh: "HashHead (nat (hash (sint k))) \<in> heads" by (rule hash_head)
    from inv_slot [OF inv hh cached_member [OF cb]] have sb: "slot n b" .
    have "counted n s' pn (Sleeper p b d k # sl)"
    proof (rule counted_change [OF c, where b = b])
      fix x assume "x \<noteq> b"
      then show "refcnt (mem s' x) = refcnt (mem s x) \<and> lock (mem s' x) = lock (mem s x) \<and>
              dev (mem s' x) = dev (mem s x) \<and> blockno (mem s' x) = blockno (mem s x)"
        by (simp add: m)
    next
      fix x assume "x \<noteq> b"
      then show "sleepers (Sleeper p b d k # sl) x = sleepers sl x" by auto
    next
      fix e assume "e \<in> set (Sleeper p b d k # sl)" "place e \<noteq> b"
      then show "e \<in> set sl" by auto
    next
      fix e assume a: "e \<in> set (Sleeper p b d k # sl)" "place e = b"
      show "slot n b \<and> dev (mem s' b) = want_dev e \<and> blockno (mem s' b) = want_blockno e"
      proof (cases "e = Sleeper p b d k")
        case True
        with sb id show ?thesis by (simp add: m)
      next
        case False
        with a have "e \<in> set sl" by simp
        from counted_sleeper [OF c this] a(2) show ?thesis by (simp add: m)
      qed
    next
      from countedD [OF c sb] unat_inc [OF nm]
      show "unat (refcnt (mem s' b)) =
              pn b + sleepers (Sleeper p b d k # sl) b + (if lock (mem s' b) = None then 0 else 1)"
        by (simp add: m)
    qed simp_all
    with i show ?thesis by simp
  next
    assume "cached s d k = None \<and> (\<exists>fl. lists_of s FreelistHead = b # fl)"
    then obtain fl where cn: "cached s d k = None" and fl: "lists_of s FreelistHead = b # fl"
      by blast
    have fh: "FreelistHead \<in> heads" by (simp add: heads_def)
    from inv_distinct(3) [OF inv fh] fl have bm: "b \<in> members s FreelistHead" by simp
    from inv_free [OF inv bm] have z: "refcnt (mem s b) = 0" "lock (mem s b) = None" .
    from inv_slot [OF inv fh bm] have sb: "slot n b" .
    from countedD [OF c sb] z have zz: "pn b = 0" "sleepers sl b = 0" by simp_all
    from bget_enter_miss_inv [OF inv k cn fl] e
    have i: "cache_inv n s'"
      and f: "refcnt (mem s' b) = 1" "lock (mem s' b) = None"
        "dev (mem s' b) = d" "blockno (mem s' b) = k"
      and o: "\<forall>x. x \<noteq> b \<longrightarrow> refcnt (mem s' x) = refcnt (mem s x) \<and> lock (mem s' x) = lock (mem s x) \<and>
              dev (mem s' x) = dev (mem s x) \<and> blockno (mem s' x) = blockno (mem s x)"
      by auto
    have "counted n s' pn (Sleeper p b d k # sl)"
    proof (rule counted_change [OF c, where b = b])
      fix x assume "x \<noteq> b"
      with o show "refcnt (mem s' x) = refcnt (mem s x) \<and> lock (mem s' x) = lock (mem s x) \<and>
              dev (mem s' x) = dev (mem s x) \<and> blockno (mem s' x) = blockno (mem s x)"
        by simp
    next
      fix x assume "x \<noteq> b"
      then show "sleepers (Sleeper p b d k # sl) x = sleepers sl x" by auto
    next
      fix e assume "e \<in> set (Sleeper p b d k # sl)" "place e \<noteq> b"
      then show "e \<in> set sl" by auto
    next
      fix e assume a: "e \<in> set (Sleeper p b d k # sl)" "place e = b"
      show "slot n b \<and> dev (mem s' b) = want_dev e \<and> blockno (mem s' b) = want_blockno e"
      proof (cases "e = Sleeper p b d k")
        case True
        with sb f show ?thesis by simp
      next
        case False
        with a have "e \<in> set sl" by simp
        from sleepers_zero [OF zz(2) this] a(2) show ?thesis by simp
      qed
    next
      from f zz show "unat (refcnt (mem s' b)) =
              pn b + sleepers (Sleeper p b d k # sl) b + (if lock (mem s' b) = None then 0 else 1)"
        by simp
    qed simp_all
    with i show ?thesis by simp
  qed
qed

text \<open>A waiting fetch keeps its slot in a bucket.\<close>

lemma sleeper_bucket:
  assumes inv: "cache_inv n s" and c: "counted n s pn sl" and e: "e \<in> set sl"
  shows "refcnt (mem s (place e)) \<noteq> 0"
    and "nat (hash (sint (blockno (mem s (place e))))) < NHASH"
    and "place e \<in> set (lists_of s (HashHead (nat (hash (sint (blockno (mem s (place e))))))))"
proof -
  from counted_sleeper [OF c e] have sb: "slot n (place e)" by simp
  from countedD [OF c sb] sleepers_pos [OF e] have "0 < unat (refcnt (mem s (place e)))" by simp
  then show r: "refcnt (mem s (place e)) \<noteq> 0" by auto
  then have "lock (mem s (place e)) \<noteq> None \<or> refcnt (mem s (place e)) \<noteq> 0" by simp
  from inv_holder_bucket [OF inv sb this]
  show "nat (hash (sint (blockno (mem s (place e))))) < NHASH"
    and "place e \<in> set (lists_of s (HashHead (nat (hash (sint (blockno (mem s (place e))))))))"
    by simp_all
qed

lemma wake_counted:
  assumes inv: "cache_inv n s" and c: "counted n s pn sl" and e: "Sleeper p b d k \<in> set sl"
    and w: "bread_wake p b s = Inr (b', s')"
  shows "cache_inv n s' \<and> counted n s' pn (remove1 (Sleeper p b d k) sl)"
proof -
  let ?e = "Sleeper p b d k"
  from bread_wake_slot [OF w] have b': "b' = b" and l: "lock (mem s b) = None" by simp_all
  from bread_wake_free [OF l, of p] w b'
  have m: "mem s' = (mem s)(b :=
              (if valid (mem s b) then (mem s b)\<lparr>lock := Some p\<rparr>
               else (mem s b)\<lparr>lock := Some p,
                      data := disk s (dev (mem s b), blockno (mem s b)), valid := True\<rparr>))"
    by auto
  from counted_sleeper [OF c e] have sb: "slot n b" by simp
  from inv have wf: "wellformed n s (lists_of s)" by (rule inv_wf)
  from sleeper_bucket [OF inv c e]
  have h: "nat (hash (sint (blockno (mem s b)))) < NHASH"
    and bb: "b \<in> set (lists_of s (HashHead (nat (hash (sint (blockno (mem s b)))))))"
    by simp_all
  from wf h bb m have "wellformed n s' (lists_of s)" by (rule wf_upd_bucket) simp_all
  then have i: "cache_inv n s'" by (rule wf_inv)
  have "counted n s' pn (remove1 ?e sl)"
  proof (rule counted_change [OF c, where b = b])
    fix x assume "x \<noteq> b"
    then show "refcnt (mem s' x) = refcnt (mem s x) \<and> lock (mem s' x) = lock (mem s x) \<and>
              dev (mem s' x) = dev (mem s x) \<and> blockno (mem s' x) = blockno (mem s x)"
      by (simp add: m)
  next
    fix x assume "x \<noteq> b"
    then show "sleepers (remove1 ?e sl) x = sleepers sl x"
      by (simp add: sleepers_remove1 [OF e])
  next
    fix a assume "a \<in> set (remove1 ?e sl)" "place a \<noteq> b"
    then show "a \<in> set sl" using set_remove1_subset [of ?e sl] by auto
  next
    fix a assume "a \<in> set (remove1 ?e sl)" "place a = b"
    moreover then have "a \<in> set sl" using set_remove1_subset [of ?e sl] by auto
    ultimately show "slot n b \<and> dev (mem s' b) = want_dev a \<and> blockno (mem s' b) = want_blockno a"
      using counted_sleeper [OF c, of a] by (auto simp: m)
  next
    from countedD [OF c sb] l sleepers_pos [OF e]
    show "unat (refcnt (mem s' b)) =
              pn b + sleepers (remove1 ?e sl) b + (if lock (mem s' b) = None then 0 else 1)"
      by (simp add: m sleepers_remove1 [OF e])
  qed simp_all
  with i show ?thesis by simp
qed

lemma flush_counted:
  assumes inv: "cache_inv n s" and c: "counted n s pn sl" and w: "bwrite p b s = Inr s'"
  shows "cache_inv n s' \<and> counted n s' pn sl"
proof -
  from w have m: "mem s' = mem s"
    by (auto simp: bwrite_def virtio_disk_rw_def Let_def split: if_splits)
  from inv have "wellformed n s (lists_of s)" by (rule inv_wf)
  from wf_bwrite [OF this w] have "cache_inv n s'" by (rule wf_inv)
  moreover from c have "counted n s' pn sl" by (simp add: counted_def m)
  ultimately show ?thesis by simp
qed

lemma release_counted:
  assumes inv: "cache_inv n s" and c: "counted n s pn sl" and sb: "slot n b"
    and e: "brelse p b s = Inr s'"
  shows "cache_inv n s' \<and> counted n s' pn sl"
proof -
  from e have l: "lock (mem s b) = Some p"
    by (cases "holdingsleep p b s") (simp_all add: brelse_panic, simp add: holdingsleep_def)
  from inv have "wellformed n s (lists_of s)" by (rule inv_wf)
  from brelse_wf [OF this sb e] have i: "cache_inv n s'" by (simp add: inv_iff_wf)
  have pl: "payload (mem s' x) =
     (if x = b then (payload (mem s b))\<lparr>lock := None, refcnt := refcnt (mem s b) - 1\<rparr>
      else payload (mem s x))" for x
    using e by (rule brelse_payload)
  from countedD [OF c sb] l have u: "unat (refcnt (mem s b)) = pn b + sleepers sl b + 1" by simp
  then have nz: "refcnt (mem s b) \<noteq> 0" by auto
  have "counted n s' pn sl"
  proof (rule counted_change [OF c, where b = b])
    fix x assume "x \<noteq> b"
    with payload_fieldsD [OF pl [of x]]
    show "refcnt (mem s' x) = refcnt (mem s x) \<and> lock (mem s' x) = lock (mem s x) \<and>
              dev (mem s' x) = dev (mem s x) \<and> blockno (mem s' x) = blockno (mem s x)"
      by simp
  next
    fix a assume "a \<in> set sl" "place a = b"
    with counted_sleeper [OF c, of a] payload_fieldsD [OF pl [of b]]
    show "slot n b \<and> dev (mem s' b) = want_dev a \<and> blockno (mem s' b) = want_blockno a"
      by simp
  next
    from payload_fieldsD [OF pl [of b]] u unat_dec [OF nz]
    show "unat (refcnt (mem s' b)) =
              pn b + sleepers sl b + (if lock (mem s' b) = None then 0 else 1)"
      by simp
  qed simp_all
  with i show ?thesis by simp
qed

lemma pin_counted:
  assumes inv: "cache_inv n s" and c: "counted n s pn sl" and sb: "slot n b"
    and nz: "refcnt (mem s b) \<noteq> 0" and nm: "refcnt (mem s b) \<noteq> - 1"
    and e: "bpin b s = Inr s'"
  shows "cache_inv n s' \<and> counted n s' (pn(b := Suc (pn b))) sl"
proof -
  have k: "0 \<le> hash (sint (blockno (mem s b)))"
  proof (rule ccontr)
    assume "\<not> 0 \<le> hash (sint (blockno (mem s b)))"
    then have "bpin b s = Inl OutOfBounds" by (simp add: bpin_fault)
    with e show False by simp
  qed
  from bpin_eq [OF k] e
  have m: "mem s' = (mem s)(b := (mem s b)\<lparr>refcnt := refcnt (mem s b) + 1\<rparr>)" by auto
  from inv have wf: "wellformed n s (lists_of s)" by (rule inv_wf)
  from wf_referenced [OF wf sb nz]
  obtain h where h: "h < NHASH" "b \<in> set (lists_of s (HashHead h))" by blast
  from wf_bpin [OF wf h e] have i: "cache_inv n s'" by (rule wf_inv)
  have "counted n s' (pn(b := Suc (pn b))) sl"
  proof (rule counted_change [OF c, where b = b])
    fix x assume "x \<noteq> b"
    then show "refcnt (mem s' x) = refcnt (mem s x) \<and> lock (mem s' x) = lock (mem s x) \<and>
              dev (mem s' x) = dev (mem s x) \<and> blockno (mem s' x) = blockno (mem s x)"
      by (simp add: m)
  next
    fix a assume "a \<in> set sl" "place a = b"
    with counted_sleeper [OF c, of a]
    show "slot n b \<and> dev (mem s' b) = want_dev a \<and> blockno (mem s' b) = want_blockno a"
      by (simp add: m)
  next
    from countedD [OF c sb] unat_inc [OF nm]
    show "unat (refcnt (mem s' b)) =
              (pn(b := Suc (pn b))) b + sleepers sl b + (if lock (mem s' b) = None then 0 else 1)"
      by (simp add: m)
  qed simp_all
  with i show ?thesis by simp
qed

lemma unpin_counted:
  assumes inv: "cache_inv n s" and c: "counted n s pn sl" and sb: "slot n b"
    and pb: "0 < pn b" and e: "bunpin b s = Inr s'"
  shows "cache_inv n s' \<and> counted n s' (pn(b := pn b - 1)) sl"
proof -
  have k: "0 \<le> hash (sint (blockno (mem s b)))"
  proof (rule ccontr)
    assume "\<not> 0 \<le> hash (sint (blockno (mem s b)))"
    then have "bunpin b s = Inl OutOfBounds" by (simp add: bunpin_fault)
    with e show False by simp
  qed
  from bunpin_eq [OF k] e
  have m: "mem s' = (mem s)(b := (mem s b)\<lparr>refcnt := refcnt (mem s b) - 1\<rparr>)" by auto
  from countedD [OF c sb] pb have "0 < unat (refcnt (mem s b))" by simp
  then have nz: "refcnt (mem s b) \<noteq> 0" by auto
  from inv have wf: "wellformed n s (lists_of s)" by (rule inv_wf)
  from wf_referenced [OF wf sb nz]
  obtain h where h: "h < NHASH" "b \<in> set (lists_of s (HashHead h))" by blast
  from wf_bunpin [OF wf h e] have i: "cache_inv n s'" by (rule wf_inv)
  have "counted n s' (pn(b := pn b - 1)) sl"
  proof (rule counted_change [OF c, where b = b])
    fix x assume "x \<noteq> b"
    then show "refcnt (mem s' x) = refcnt (mem s x) \<and> lock (mem s' x) = lock (mem s x) \<and>
              dev (mem s' x) = dev (mem s x) \<and> blockno (mem s' x) = blockno (mem s x)"
      by (simp add: m)
  next
    fix a assume "a \<in> set sl" "place a = b"
    with counted_sleeper [OF c, of a]
    show "slot n b \<and> dev (mem s' b) = want_dev a \<and> blockno (mem s' b) = want_blockno a"
      by (simp add: m)
  next
    from countedD [OF c sb] unat_dec [OF nz] pb
    show "unat (refcnt (mem s' b)) =
              (pn(b := pn b - 1)) b + sleepers sl b + (if lock (mem s' b) = None then 0 else 1)"
      by (simp add: m)
  qed simp_all
  with i show ?thesis by simp
qed

lemma reachable_inv: "reachable n s pn sl \<Longrightarrow> cache_inv n s \<and> counted n s pn sl"
proof (induction rule: reachable.induct)
  case (init s0)
  then have "wellformed n (binit n s0) (init_lists n)" by (intro wf_binit) simp
  then have "cache_inv n (binit n s0)" by (rule wf_inv)
  with counted_binit [OF init] show ?case by simp
next
  case (fetch s pn sl d k p b s')
  from fetch.IH have i: "cache_inv n s" and c: "counted n s pn sl" by simp_all
  from i c fetch.hyps(2,3) show ?case by (rule fetch_counted)
next
  case (enter s pn sl d k b s' p)
  from enter.IH have i: "cache_inv n s" and c: "counted n s pn sl" by simp_all
  from i c enter.hyps(2,3) show ?case by (rule enter_counted)
next
  case (wake s pn sl p b d k b' s')
  from wake.IH have i: "cache_inv n s" and c: "counted n s pn sl" by simp_all
  from i c wake.hyps(2,3) show ?case by (rule wake_counted)
next
  case (flush s pn sl b p s')
  from flush.IH have i: "cache_inv n s" and c: "counted n s pn sl" by simp_all
  from i c flush.hyps(3) show ?case by (rule flush_counted)
next
  case (release s pn sl b p s')
  from release.IH have i: "cache_inv n s" and c: "counted n s pn sl" by simp_all
  from i c release.hyps(2,3) show ?case by (rule release_counted)
next
  case (pin s pn sl b s')
  from pin.IH have i: "cache_inv n s" and c: "counted n s pn sl" by simp_all
  from i c pin.hyps(2,3,4,5) show ?case by (rule pin_counted)
next
  case (unpin s pn sl b s')
  from unpin.IH have i: "cache_inv n s" and c: "counted n s pn sl" by simp_all
  from i c unpin.hyps(2,3,4) show ?case by (rule unpin_counted)
qed

subsection \<open>Whole operations in reachable states\<close>

lemma release_total:
  assumes r: "reachable n s pn sl" and sb: "slot n b" and l: "holdingsleep p b s"
  shows "\<exists>s'. brelse p b s = Inr s' \<and> reachable n s' pn sl \<and>
           refcnt (mem s b) \<noteq> 0 \<and>
           unat (refcnt (mem s' b)) = unat (refcnt (mem s b)) - 1 \<and>
           b \<in> members s (HashHead (nat (hash (sint (blockno (mem s b)))))) \<and>
           (if refcnt (mem s b) = 1
            then refcnt (mem s' b) = 0 \<and>
                 b \<notin> members s' (HashHead (nat (hash (sint (blockno (mem s b)))))) \<and>
                 b \<in> members s' FreelistHead
            else refcnt (mem s' b) \<noteq> 0 \<and>
                 b \<in> members s' (HashHead (nat (hash (sint (blockno (mem s b)))))) \<and>
                 b \<notin> members s' FreelistHead)"
proof -
  let ?lh = "HashHead (nat (hash (sint (blockno (mem s b)))))"
  from reachable_inv [OF r] have inv: "cache_inv n s" and c: "counted n s pn sl" by simp_all
  from l have lk: "lock (mem s b) = Some p" by (simp add: holdingsleep_def)
  from countedD [OF c sb] lk have "0 < unat (refcnt (mem s b))" by simp
  then have nz: "refcnt (mem s b) \<noteq> 0" by auto
  from lk have "lock (mem s b) \<noteq> None \<or> refcnt (mem s b) \<noteq> 0" by simp
  from inv_holder_bucket [OF inv sb this]
  have k: "0 \<le> hash (sint (blockno (mem s b)))"
    and bl: "b \<in> set (lists_of s ?lh)"
    by simp_all
  from k have hh: "?lh \<in> heads" by (rule hash_head)
  from inv_distinct(3) [OF inv hh] bl have bm: "b \<in> members s ?lh" by simp
  from brelse_returns [OF l k] obtain s' where e: "brelse p b s = Inr s'" by blast
  from r sb e have r': "reachable n s' pn sl" by (rule reachable.release)
  from brelse_refcnt [OF e] have rc: "refcnt (mem s' b) = refcnt (mem s b) - 1" .
  with unat_dec [OF nz] have u: "unat (refcnt (mem s' b)) = unat (refcnt (mem s b)) - 1" by simp
  have "if refcnt (mem s b) = 1
        then refcnt (mem s' b) = 0 \<and> b \<notin> members s' ?lh \<and> b \<in> members s' FreelistHead
        else refcnt (mem s' b) \<noteq> 0 \<and> b \<in> members s' ?lh \<and> b \<notin> members s' FreelistHead"
  proof (cases "refcnt (mem s b) = 1")
    case True
    with rc have z: "refcnt (mem s' b) = 0" by simp
    from release_moves [OF inv sb e z] z True show ?thesis by simp
  next
    case False
    from brelse_keep_inv [OF inv sb l False] e
    have ls: "\<forall>lh. list_of s' lh = list_of s lh" by auto
    then have ms: "members s' lh = members s lh" for lh by (simp add: members_def)
    have "b \<notin> members s FreelistHead"
    proof
      assume "b \<in> members s FreelistHead"
      from inv_free(2) [OF inv this] lk show False by simp
    qed
    moreover from rc nz False have "refcnt (mem s' b) \<noteq> 0" by simp
    ultimately show ?thesis using False bm ms by simp
  qed
  with e r' nz u bm show ?thesis by blast
qed

lemma miss_total:
  assumes r: "reachable n s pn sl" and k: "0 \<le> hash (sint k)"
    and c: "cached s d k = None" and e: "lists_of s FreelistHead = b # fl"
  shows "\<exists>s'. bread p d k s = Inr (b, s') \<and> reachable n s' pn sl \<and>
           refcnt (mem s b) = 0 \<and> refcnt (mem s' b) = 1 \<and>
           b \<in> members s FreelistHead \<and> b \<notin> members s' FreelistHead \<and>
           b \<in> members s' (HashHead (nat (hash (sint k))))"
proof -
  from reachable_inv [OF r] have inv: "cache_inv n s" by simp
  from bread_miss_inv [OF inv k c e, of p]
  obtain s' where s': "bread p d k s = Inr (b, s')" "refcnt (mem s' b) = 1" by blast
  from c have "room s d k" by (simp add: room_def)
  with r have r': "reachable n s' pn sl" using s'(1) by (rule reachable.fetch)
  from miss_moves [OF inv c s'(1)]
  have m: "b \<in> members s FreelistHead" "b \<notin> members s' FreelistHead"
    "b \<in> members s' (HashHead (nat (hash (sint k))))"
    by simp_all
  from inv_free(1) [OF inv m(1)] have "refcnt (mem s b) = 0" .
  with s' r' m show ?thesis by blast
qed



subsection \<open>The concrete states are reachable\<close>

lemma reachable_s_init: "reachable 2 s_init (\<lambda>_. 0) []"
  unfolding s_init_def by (rule reachable.init) simp

lemma bread_s_init: "bread 1 1 5 s_init = Inr (Cache 1, s_held)"
proof -
  have "map_sum id fst (bread 1 1 5 s_init) = Inr (Cache 1)" by code_simp
  then obtain s' where s': "bread 1 1 5 s_init = Inr (Cache 1, s')" by (blast dest: returns_slot)
  then have "s_held = s'" by (simp add: s_held_def state_after_def)
  with s' show ?thesis by simp
qed

lemma reachable_s_held: "reachable 2 s_held (\<lambda>_. 0) []"
proof -
  have "room s_init 1 5" by code_simp
  with reachable_s_init show ?thesis using bread_s_init by (rule reachable.fetch)
qed





lemma bpin_s_held: "bpin (Cache 1) s_held = Inr (state_after [Bpin (Cache 1)] s_held)"
proof -
  have "\<not> isl (step (Bpin (Cache 1)) s_held)" by code_simp
  from step_state_after [OF this] show ?thesis by simp
qed

lemma reachable_pinned:
  "reachable 2 (state_after [Bpin (Cache 1)] s_held) ((\<lambda>_. 0)(Cache 1 := Suc 0)) []"
proof -
  have "refcnt (mem s_held (Cache 1)) \<noteq> 0" "refcnt (mem s_held (Cache 1)) \<noteq> - 1" by code_simp+
  with reachable.pin [OF reachable_s_held _ _ _ bpin_s_held] show ?thesis by simp
qed

section \<open>The properties of the cache\<close>

text \<open>
  C1, as stated, fails.  On a miss \<open>bget\<close> acquires the free-list lock while it still
  holds the bucket lock, and so does \<open>brelse\<close> when the count reaches zero: in both the
  calling thread holds two structural locks at once.
\<close>

theorem one_structural_lock_counterexample:
  "spin s_init = [] \<and>
   observe spin [Bread 1 1 5] s_init =
     Inr [Acquire (BucketLock 5), Acquire FreelistLock, Release FreelistLock,
          Release (BucketLock 5)] \<and>
   observe (held_max [] \<circ> spin) [Bread 1 1 5] s_init = Inr 2 \<and>
   observe (held_max [] \<circ> spin) [Bread 1 1 5, Brelse 1 (Cache 1)] s_init = Inr 2"
  by code_simp

text \<open>
  C1, amended.  Every operation that returns takes its spinlocks in one of two shapes.
  A hit of \<open>bread\<close>, a \<open>brelse\<close> that leaves the count non-zero, \<open>bpin\<close> and
  \<open>bunpin\<close> acquire and release one bucket lock and nothing else.  A miss of \<open>bread\<close>
  and a \<open>brelse\<close> that brings the count to zero acquire the bucket lock, then the
  free-list lock, and release them in the opposite order: at most two structural locks
  are held, one bucket lock and the free-list lock, never two bucket locks.  \<open>bwrite\<close>
  takes no spinlock.
\<close>

theorem lock_order:
  "(cache_inv nbuf s \<and> bread p d n s = Inr (b', s0) \<longrightarrow>
      spin s0 = spin s @
        (if cached s d n = None then bucket_then_pool (nat (hash (sint n)))
         else bucket_only (nat (hash (sint n))))) \<and>
   (brelse p b s = Inr s1 \<longrightarrow>
      spin s1 = spin s @
        (if refcnt (mem s b) = 1 then bucket_then_pool (nat (hash (sint (blockno (mem s b)))))
         else bucket_only (nat (hash (sint (blockno (mem s b))))))) \<and>
   (bpin b s = Inr s2 \<longrightarrow> spin s2 = spin s @ bucket_only (nat (hash (sint (blockno (mem s b)))))) \<and>
   (bunpin b s = Inr s3 \<longrightarrow> spin s3 = spin s @ bucket_only (nat (hash (sint (blockno (mem s b)))))) \<and>
   (bwrite p b s = Inr s4 \<longrightarrow> spin s4 = spin s) \<and>
   held_max [] (bucket_only h) = 1 \<and> held_max [] (bucket_then_pool h) = 2"
proof -
  have "bwrite p b s = Inr s4 \<longrightarrow> spin s4 = spin s"
    by (auto simp: bwrite_def split: if_splits)
  moreover have "held_max [] (bucket_only h) = 1" "held_max [] (bucket_then_pool h) = 2"
    by (simp_all add: bucket_only_def bucket_then_pool_def)
  ultimately show ?thesis
    using bread_spin [of nbuf s p d n b' s0] brelse_spin [of p b s s1]
      bpin_result [of b s s2] bunpin_result [of b s s3]
    by blast
qed

theorem lock_order_witness:
  "cache_inv 2 s_init \<and>
   (\<exists>s'. bread 1 1 5 s_init = Inr (Cache 1, s') \<and> spin s' = spin s_init @ bucket_then_pool 5) \<and>
   (\<exists>s'. bread 2 1 5 s_pinned = Inr (Cache 1, s') \<and> spin s' = spin s_pinned @ bucket_only 5) \<and>
   (\<exists>s'. brelse 1 (Cache 1) s_held = Inr s' \<and> spin s' = spin s_held @ bucket_then_pool 5) \<and>
   (\<exists>s'. bpin (Cache 1) s_held = Inr s' \<and> spin s' = spin s_held @ bucket_only 5) \<and>
   (\<exists>s'. bunpin (Cache 1) s_held = Inr s' \<and> spin s' = spin s_held @ bucket_only 5) \<and>
   (\<exists>s'. bwrite 1 (Cache 1) s_held = Inr s' \<and> spin s' = spin s_held)"
proof -
  have e: "cached s_init 1 5 = None" "cached s_pinned 1 5 = Some (Cache 1)"
    "refcnt (mem s_held (Cache 1)) = 1" "blockno (mem s_held (Cache 1)) = 5"
    "nat (hash (sint (5 :: u32))) = 5"
    by code_simp+
  have "map_sum id fst (bread 1 1 5 s_init) = Inr (Cache 1)" by code_simp
  then obtain t1 where t1: "bread 1 1 5 s_init = Inr (Cache 1, t1)" by (blast dest: returns_slot)
  have "map_sum id fst (bread 2 1 5 s_pinned) = Inr (Cache 1)" by code_simp
  then obtain t2 where t2: "bread 2 1 5 s_pinned = Inr (Cache 1, t2)" by (blast dest: returns_slot)
  have "\<not> isl (brelse 1 (Cache 1) s_held)" by code_simp
  then obtain t3 where t3: "brelse 1 (Cache 1) s_held = Inr t3" by (blast dest: returns_state)
  have "\<not> isl (bpin (Cache 1) s_held)" by code_simp
  then obtain t4 where t4: "bpin (Cache 1) s_held = Inr t4" by (blast dest: returns_state)
  have "\<not> isl (bunpin (Cache 1) s_held)" by code_simp
  then obtain t5 where t5: "bunpin (Cache 1) s_held = Inr t5" by (blast dest: returns_state)
  have "\<not> isl (bwrite 1 (Cache 1) s_held)" by code_simp
  then obtain t6 where t6: "bwrite 1 (Cache 1) s_held = Inr t6" by (blast dest: returns_state)
  from lock_order [of 2 s_init 1 1 5 "Cache 1" t1] cache_inv_s_init t1 e
  have 1: "spin t1 = spin s_init @ bucket_then_pool 5" by simp
  from lock_order [of 2 s_pinned 2 1 5 "Cache 1" t2] cache_inv_s_pinned t2 e
  have 2: "spin t2 = spin s_pinned @ bucket_only 5" by simp
  from lock_order [of _ s_held 1 _ _ _ _ "Cache 1" t3 t4 t5 t6] t3 t4 t5 t6 e
  have 3: "spin t3 = spin s_held @ bucket_then_pool 5" "spin t4 = spin s_held @ bucket_only 5"
    "spin t5 = spin s_held @ bucket_only 5" "spin t6 = spin s_held"
    by simp_all
  from cache_inv_s_init t1 t2 t3 t4 t5 t6 1 2 3 show ?thesis by blast
qed

text \<open>
  C2, as stated, fails.  \<open>bpin\<close> tests nothing: right after \<open>binit\<close>, \<open>bpin\<close> of
  slot 1 returns, and the slot is then in the free list with reference count 1, and not
  in the bucket of its block number.
\<close>

theorem pinned_free_slot_counterexample:
  "observe (refcnt_of (Cache 1)) [Bpin (Cache 1)] s_init = Inr 1 \<and>
   members (state_after [Bpin (Cache 1)] s_init) FreelistHead = {Cache 0, Cache 1} \<and>
   blockno (mem (state_after [Bpin (Cache 1)] s_init) (Cache 1)) = 0 \<and>
   members (state_after [Bpin (Cache 1)] s_init) (HashHead 0) = {}"
  by code_simp

text \<open>
  C2, amended.  \<open>binit\<close> puts every slot in the free list and leaves every bucket
  empty.  In every reachable state every list is a doubly linked ring through its head and
  every slot is a member of exactly one of the lists; a slot with a non-zero reference
  count is in a bucket, and a slot in the free list has reference count zero.  The
  reachable states are those of clients that keep to the interface: they pass slots, pin
  a slot only while it is referenced, unpin it only to undo a pin, and take fewer than
  \<open>2^32\<close> references to one slot; a fetch may wait in \<open>acquiresleep\<close> while
  other processes take their steps.  \<open>binit\<close> on memory with zero reference counts
  gives such a state.  In such a state a miss of \<open>bread\<close>, while the free list
  has a slot, returns: it takes the first slot, whose count is zero, out of the free list
  and into the bucket of the block number, with count 1.  \<open>brelse\<close> of a slot by its
  holder returns and takes one off the count, which was not zero: when the count was 1
  the slot goes out of its bucket and into the free list with count zero, otherwise it
  stays in its bucket with a non-zero count.  States inside an operation, between its
  unlinking and its linking of a slot, are not states of this model.
\<close>

theorem slot_in_one_list:
  "list_of (binit nbuf s0) FreelistHead = Some (rev (map Cache [0..<nbuf])) \<and>
   (\<forall>h<NHASH. list_of (binit nbuf s0) (HashHead h) = Some []) \<and>
   ((\<forall>i<nbuf. refcnt (mem s0 (Cache i)) = 0) \<longrightarrow>
      reachable nbuf (binit nbuf s0) (\<lambda>_. 0) []) \<and>
   (reachable nbuf s pn sl \<longrightarrow>
      (\<forall>lh\<in>heads. \<exists>xs. list_of s lh = Some xs \<and> ring (mem s) lh xs) \<and>
      (\<forall>i<nbuf. \<exists>!lh. lh \<in> heads \<and> Cache i \<in> members s lh) \<and>
      (\<forall>i<nbuf. refcnt (mem s (Cache i)) \<noteq> 0 \<longrightarrow>
         (\<exists>h<NHASH. Cache i \<in> members s (HashHead h))) \<and>
      (\<forall>i<nbuf. Cache i \<in> members s FreelistHead \<longrightarrow> refcnt (mem s (Cache i)) = 0) \<and>
      (\<forall>p d n b fl.
         0 \<le> hash (sint n) \<and> cached s d n = None \<and> lists_of s FreelistHead = b # fl \<longrightarrow>
         (\<exists>s'. bread p d n s = Inr (b, s') \<and> reachable nbuf s' pn sl \<and>
            refcnt (mem s b) = 0 \<and> refcnt (mem s' b) = 1 \<and>
            b \<in> members s FreelistHead \<and> b \<notin> members s' FreelistHead \<and>
            b \<in> members s' (HashHead (nat (hash (sint n)))))) \<and>
      (\<forall>p b. slot nbuf b \<and> holdingsleep p b s \<longrightarrow>
         (\<exists>s'. brelse p b s = Inr s' \<and> reachable nbuf s' pn sl \<and>
            refcnt (mem s b) \<noteq> 0 \<and>
            unat (refcnt (mem s' b)) = unat (refcnt (mem s b)) - 1 \<and>
            b \<in> members s (HashHead (nat (hash (sint (blockno (mem s b)))))) \<and>
            (if refcnt (mem s b) = 1
             then refcnt (mem s' b) = 0 \<and>
                  b \<notin> members s' (HashHead (nat (hash (sint (blockno (mem s b)))))) \<and>
                  b \<in> members s' FreelistHead
             else refcnt (mem s' b) \<noteq> 0 \<and>
                  b \<in> members s' (HashHead (nat (hash (sint (blockno (mem s b)))))) \<and>
                  b \<notin> members s' FreelistHead))))"
proof (intro conjI impI)
  show "list_of (binit nbuf s0) FreelistHead = Some (rev (map Cache [0..<nbuf]))"
    by (rule list_of_binit)
  show "\<forall>h<NHASH. list_of (binit nbuf s0) (HashHead h) = Some []"
    by (simp add: list_of_binit)
next
  assume "\<forall>i<nbuf. refcnt (mem s0 (Cache i)) = 0"
  then show "reachable nbuf (binit nbuf s0) (\<lambda>_. 0) []" by (rule reachable.init)
next
  assume r: "reachable nbuf s pn sl"
  from reachable_inv [OF r] have inv: "cache_inv nbuf s" by simp
  then show "\<forall>lh\<in>heads. \<exists>xs. list_of s lh = Some xs \<and> ring (mem s) lh xs"
    and "\<forall>i<nbuf. \<exists>!lh. lh \<in> heads \<and> Cache i \<in> members s lh"
    and "\<forall>i<nbuf. Cache i \<in> members s FreelistHead \<longrightarrow> refcnt (mem s (Cache i)) = 0"
    by (simp_all add: cache_inv_def)
  from inv show "\<forall>i<nbuf. refcnt (mem s (Cache i)) \<noteq> 0 \<longrightarrow>
         (\<exists>h<NHASH. Cache i \<in> members s (HashHead h))"
    by (blast intro: inv_referenced)
  show "\<forall>p d n b fl.
         0 \<le> hash (sint n) \<and> cached s d n = None \<and> lists_of s FreelistHead = b # fl \<longrightarrow>
         (\<exists>s'. bread p d n s = Inr (b, s') \<and> reachable nbuf s' pn sl \<and>
            refcnt (mem s b) = 0 \<and> refcnt (mem s' b) = 1 \<and>
            b \<in> members s FreelistHead \<and> b \<notin> members s' FreelistHead \<and>
            b \<in> members s' (HashHead (nat (hash (sint n)))))"
    using miss_total [OF r] by blast
  show "\<forall>p b. slot nbuf b \<and> holdingsleep p b s \<longrightarrow>
         (\<exists>s'. brelse p b s = Inr s' \<and> reachable nbuf s' pn sl \<and>
            refcnt (mem s b) \<noteq> 0 \<and>
            unat (refcnt (mem s' b)) = unat (refcnt (mem s b)) - 1 \<and>
            b \<in> members s (HashHead (nat (hash (sint (blockno (mem s b)))))) \<and>
            (if refcnt (mem s b) = 1
             then refcnt (mem s' b) = 0 \<and>
                  b \<notin> members s' (HashHead (nat (hash (sint (blockno (mem s b)))))) \<and>
                  b \<in> members s' FreelistHead
             else refcnt (mem s' b) \<noteq> 0 \<and>
                  b \<in> members s' (HashHead (nat (hash (sint (blockno (mem s b)))))) \<and>
                  b \<notin> members s' FreelistHead))"
    using release_total [OF r] by blast
qed

theorem slot_in_one_list_witness:
  "reachable 2 (binit 2 (boot [] blank_disk)) (\<lambda>_. 0) [] \<and>
   list_of (binit 2 (boot [] blank_disk)) FreelistHead = Some [Cache 1, Cache 0] \<and>
   reachable 2 s_held (\<lambda>_. 0) [] \<and>
   members s_held FreelistHead = {Cache 0} \<and> members s_held (HashHead 5) = {Cache 1} \<and>
   refcnt (mem s_held (Cache 0)) = 0 \<and> refcnt (mem s_held (Cache 1)) = 1 \<and>
   (\<exists>!lh. lh \<in> heads \<and> Cache 0 \<in> members s_held lh) \<and>
   (\<exists>!lh. lh \<in> heads \<and> Cache 1 \<in> members s_held lh) \<and>
   (\<exists>h<NHASH. Cache 1 \<in> members s_held (HashHead h)) \<and>
   (\<exists>s'. brelse 1 (Cache 1) s_held = Inr s' \<and> reachable 2 s' (\<lambda>_. 0) [] \<and>
      refcnt (mem s' (Cache 1)) = 0 \<and> Cache 1 \<notin> members s' (HashHead 5) \<and>
      Cache 1 \<in> members s' FreelistHead) \<and>
   (\<exists>s'. bread 2 1 6 s_held = Inr (Cache 0, s') \<and> reachable 2 s' (\<lambda>_. 0) [] \<and>
      refcnt (mem s' (Cache 0)) = 1 \<and> Cache 0 \<notin> members s' FreelistHead \<and>
      Cache 0 \<in> members s' (HashHead 6)) \<and>
   reachable 2 (state_after [Bpin (Cache 1)] s_held) ((\<lambda>_. 0)(Cache 1 := Suc 0)) [] \<and>
   refcnt (mem (state_after [Bpin (Cache 1)] s_held) (Cache 1)) = 2 \<and>
   (\<exists>s'. brelse 1 (Cache 1) (state_after [Bpin (Cache 1)] s_held) = Inr s' \<and>
      refcnt (mem s' (Cache 1)) \<noteq> 0 \<and> Cache 1 \<in> members s' (HashHead 5) \<and>
      Cache 1 \<notin> members s' FreelistHead)"
proof -
  let ?pn = "(\<lambda>_. 0 :: nat)(Cache 1 := Suc 0)"
  let ?sp = "state_after [Bpin (Cache 1)] s_held"
  have e: "members s_held FreelistHead = {Cache 0}" "members s_held (HashHead 5) = {Cache 1}"
    "refcnt (mem s_held (Cache 0)) = 0" "refcnt (mem s_held (Cache 1)) = 1"
    by code_simp+
  have g: "holdingsleep 1 (Cache 1) s_held" "nat (hash (sint (blockno (mem s_held (Cache 1))))) = 5"
    "0 \<le> hash (sint (6 :: u32))" "cached s_held 1 6 = None"
    "lists_of s_held FreelistHead = [Cache 0]" "nat (hash (sint (6 :: u32))) = 6"
    by code_simp+
  note t = slot_in_one_list [of 2 "boot [] blank_disk" s_held "\<lambda>_. 0" "[]"]
  from t have 0: "reachable 2 (binit 2 (boot [] blank_disk)) (\<lambda>_. 0) []"
    "list_of (binit 2 (boot [] blank_disk)) FreelistHead = Some (rev (map Cache [0..<2]))"
    by simp_all
  have "rev (map Cache [0..<2]) = [Cache 1, Cache 0]" by code_simp
  with 0 have 00: "list_of (binit 2 (boot [] blank_disk)) FreelistHead = Some [Cache 1, Cache 0]"
    by simp
  from t reachable_s_held
  have u: "\<forall>i<2. \<exists>!lh. lh \<in> heads \<and> Cache i \<in> members s_held lh"
    and r: "\<forall>i<2. refcnt (mem s_held (Cache i)) \<noteq> 0 \<longrightarrow>
         (\<exists>h<NHASH. Cache i \<in> members s_held (HashHead h))"
    and m: "\<forall>p d n b fl.
         0 \<le> hash (sint n) \<and> cached s_held d n = None \<and> lists_of s_held FreelistHead = b # fl \<longrightarrow>
         (\<exists>s'. bread p d n s_held = Inr (b, s') \<and> reachable 2 s' (\<lambda>_. 0) [] \<and>
            refcnt (mem s_held b) = 0 \<and> refcnt (mem s' b) = 1 \<and>
            b \<in> members s_held FreelistHead \<and> b \<notin> members s' FreelistHead \<and>
            b \<in> members s' (HashHead (nat (hash (sint n)))))"
    and b: "\<forall>p b. slot 2 b \<and> holdingsleep p b s_held \<longrightarrow>
         (\<exists>s'. brelse p b s_held = Inr s' \<and> reachable 2 s' (\<lambda>_. 0) [] \<and>
            refcnt (mem s_held b) \<noteq> 0 \<and>
            unat (refcnt (mem s' b)) = unat (refcnt (mem s_held b)) - 1 \<and>
            b \<in> members s_held (HashHead (nat (hash (sint (blockno (mem s_held b)))))) \<and>
            (if refcnt (mem s_held b) = 1
             then refcnt (mem s' b) = 0 \<and>
                  b \<notin> members s' (HashHead (nat (hash (sint (blockno (mem s_held b)))))) \<and>
                  b \<in> members s' FreelistHead
             else refcnt (mem s' b) \<noteq> 0 \<and>
                  b \<in> members s' (HashHead (nat (hash (sint (blockno (mem s_held b)))))) \<and>
                  b \<notin> members s' FreelistHead))"
    by blast+
  from u have 1: "\<exists>!lh. lh \<in> heads \<and> Cache 0 \<in> members s_held lh"
    "\<exists>!lh. lh \<in> heads \<and> Cache 1 \<in> members s_held lh"
    by simp_all
  from r e(4) have 2: "\<exists>h<NHASH. Cache 1 \<in> members s_held (HashHead h)" by simp
  from b [rule_format, of "Cache 1" 1] g(1,2) e(4)
  have 3: "\<exists>s'. brelse 1 (Cache 1) s_held = Inr s' \<and> reachable 2 s' (\<lambda>_. 0) [] \<and>
      refcnt (mem s' (Cache 1)) = 0 \<and> Cache 1 \<notin> members s' (HashHead 5) \<and>
      Cache 1 \<in> members s' FreelistHead"
    by auto
  from m [rule_format, of 6 1 "Cache 0" "[]" 2] g(3,4,5,6)
  have 4: "\<exists>s'. bread 2 1 6 s_held = Inr (Cache 0, s') \<and> reachable 2 s' (\<lambda>_. 0) [] \<and>
      refcnt (mem s' (Cache 0)) = 1 \<and> Cache 0 \<notin> members s' FreelistHead \<and>
      Cache 0 \<in> members s' (HashHead 6)"
    by auto
  have f: "holdingsleep 1 (Cache 1) ?sp" "nat (hash (sint (blockno (mem ?sp (Cache 1))))) = 5"
    "refcnt (mem ?sp (Cache 1)) = 2"
    by code_simp+
  from slot_in_one_list [of 2 "boot [] blank_disk" ?sp ?pn "[]"] reachable_pinned
  have "\<forall>p b. slot 2 b \<and> holdingsleep p b ?sp \<longrightarrow>
         (\<exists>s'. brelse p b ?sp = Inr s' \<and> reachable 2 s' ?pn [] \<and>
            refcnt (mem ?sp b) \<noteq> 0 \<and>
            unat (refcnt (mem s' b)) = unat (refcnt (mem ?sp b)) - 1 \<and>
            b \<in> members ?sp (HashHead (nat (hash (sint (blockno (mem ?sp b)))))) \<and>
            (if refcnt (mem ?sp b) = 1
             then refcnt (mem s' b) = 0 \<and>
                  b \<notin> members s' (HashHead (nat (hash (sint (blockno (mem ?sp b)))))) \<and>
                  b \<in> members s' FreelistHead
             else refcnt (mem s' b) \<noteq> 0 \<and>
                  b \<in> members s' (HashHead (nat (hash (sint (blockno (mem ?sp b)))))) \<and>
                  b \<notin> members s' FreelistHead))"
    by blast
  from this [rule_format, of "Cache 1" 1] f
  have 5: "\<exists>s'. brelse 1 (Cache 1) ?sp = Inr s' \<and>
      refcnt (mem s' (Cache 1)) \<noteq> 0 \<and> Cache 1 \<in> members s' (HashHead 5) \<and>
      Cache 1 \<notin> members s' FreelistHead"
    by auto
  from 0(1) 00 reachable_s_held e 1 2 3 4 reachable_pinned f(3) 5 show ?thesis by simp
qed




text \<open>
  C4.  In a state that satisfies the invariant, \<open>brelse\<close> of a slot by the holder of its
  content access returns; the content access is free afterwards and the reference count
  is one less.  Content, identity and validity flag of every slot are as before, and so
  are holder and count of every other slot and the device.  The slot is a member of the
  bucket of its block number, whose lock is the one taken.  Exactly when the count has
  become zero the slot is removed from that bucket's list and put at the head of the free
  list (under the free-list lock), every other list keeps its members, and no lookup
  finds the slot any more; otherwise no list changes.
\<close>

theorem brelse_effect:
  assumes "cache_inv nbuf s" and "slot nbuf b" and "holdingsleep p b s"
  shows "\<exists>s'. brelse p b s = Inr s' \<and>
           lock (mem s' b) = None \<and> refcnt (mem s' b) = refcnt (mem s b) - 1 \<and>
           (\<forall>x. data (mem s' x) = data (mem s x) \<and> dev (mem s' x) = dev (mem s x) \<and>
                blockno (mem s' x) = blockno (mem s x) \<and> valid (mem s' x) = valid (mem s x)) \<and>
           (\<forall>x. x \<noteq> b \<longrightarrow> lock (mem s' x) = lock (mem s x) \<and> refcnt (mem s' x) = refcnt (mem s x)) \<and>
           disk s' = disk s \<and> io s' = io s \<and>
           b \<in> members s (HashHead (nat (hash (sint (blockno (mem s b)))))) \<and>
           (if refcnt (mem s' b) = 0
            then spin s' = spin s @ bucket_then_pool (nat (hash (sint (blockno (mem s b))))) \<and>
                 list_of s' (HashHead (nat (hash (sint (blockno (mem s b)))))) =
                   Some (remove1 b (lists_of s (HashHead (nat (hash (sint (blockno (mem s b)))))))) \<and>
                 list_of s' FreelistHead = Some (b # lists_of s FreelistHead) \<and>
                 (\<forall>lh\<in>heads. lh \<noteq> FreelistHead \<longrightarrow>
                    lh \<noteq> HashHead (nat (hash (sint (blockno (mem s b))))) \<longrightarrow>
                    list_of s' lh = list_of s lh) \<and>
                 (\<forall>d n. cached s' d n \<noteq> Some b)
            else spin s' = spin s @ bucket_only (nat (hash (sint (blockno (mem s b))))) \<and>
                 (\<forall>lh. list_of s' lh = list_of s lh))"
proof -
  let ?h = "nat (hash (sint (blockno (mem s b))))"
  from assms(3) have "lock (mem s b) \<noteq> None \<or> refcnt (mem s b) \<noteq> 0"
    by (simp add: holdingsleep_def)
  note hb = inv_holder_bucket [OF assms(1,2) this]
  from assms(1) have wf: "wellformed nbuf s (lists_of s)" by (rule inv_wf)
  from hb(2) have "HashHead ?h \<in> heads" by simp
  from wf_members [OF wf this] hb(3) have mb: "b \<in> members s (HashHead ?h)" by simp
  show ?thesis
  proof (cases "refcnt (mem s b) = 1")
    case True
    from brelse_last_inv [OF assms True]
    obtain s' where s': "brelse p b s = Inr s'" "cache_inv nbuf s'"
      "lock (mem s' b) = None" "refcnt (mem s' b) = 0"
      "valid (mem s' b) = valid (mem s b)" "dev (mem s' b) = dev (mem s b)"
      "blockno (mem s' b) = blockno (mem s b)" "data (mem s' b) = data (mem s b)"
      and o: "\<forall>x. x \<noteq> b \<longrightarrow> valid (mem s' x) = valid (mem s x) \<and> dev (mem s' x) = dev (mem s x) \<and>
              blockno (mem s' x) = blockno (mem s x) \<and> lock (mem s' x) = lock (mem s x) \<and>
              refcnt (mem s' x) = refcnt (mem s x) \<and> data (mem s' x) = data (mem s x)"
      and r: "disk s' = disk s" "io s' = io s" "spin s' = spin s @ bucket_then_pool ?h"
      and l: "list_of s' (HashHead ?h) = Some (remove1 b (lists_of s (HashHead ?h)))"
        "list_of s' FreelistHead = Some (b # lists_of s FreelistHead)"
        "\<forall>lh\<in>heads. lh \<noteq> FreelistHead \<longrightarrow> lh \<noteq> HashHead ?h \<longrightarrow> list_of s' lh = list_of s lh"
      by blast
    from l(2) have "b \<in> members s' FreelistHead" by (simp add: members_def)
    from not_cached_free [OF s'(2) this] have nc: "\<forall>d n. cached s' d n \<noteq> Some b" by blast
    have f: "\<forall>x. data (mem s' x) = data (mem s x) \<and> dev (mem s' x) = dev (mem s x) \<and>
                blockno (mem s' x) = blockno (mem s x) \<and> valid (mem s' x) = valid (mem s x)"
      using s'(5-8) o by metis
    from s'(1,3,4) True f o r l nc mb show ?thesis by simp
  next
    case False
    from brelse_keep_inv [OF assms False]
    obtain s' where s': "brelse p b s = Inr s'"
      "mem s' = (mem s)(b := (mem s b)\<lparr>lock := None, refcnt := refcnt (mem s b) - 1\<rparr>)"
      "disk s' = disk s" "io s' = io s" "spin s' = spin s @ bucket_only ?h"
      "\<forall>lh. list_of s' lh = list_of s lh"
      by blast
    from False have "refcnt (mem s b) - 1 \<noteq> 0" by simp
    with s' mb show ?thesis by simp
  qed
qed

theorem brelse_effect_witness:
  "cache_inv 2 s_held \<and> slot 2 (Cache 1) \<and> holdingsleep 1 (Cache 1) s_held \<and>
   (\<exists>s'. brelse 1 (Cache 1) s_held = Inr s' \<and> refcnt (mem s' (Cache 1)) = 0 \<and>
      lock (mem s' (Cache 1)) = None \<and>
      dev (mem s' (Cache 1)) = 1 \<and> blockno (mem s' (Cache 1)) = 5 \<and> valid (mem s' (Cache 1)) \<and>
      list_of s' (HashHead 5) = Some [] \<and>
      list_of s' FreelistHead = Some [Cache 1, Cache 0] \<and>
      cached s' 1 5 \<noteq> Some (Cache 1))"
proof -
  have h: "holdingsleep 1 (Cache 1) s_held" by code_simp
  have sl: "slot 2 (Cache 1)" by simp
  have e: "refcnt (mem s_held (Cache 1)) = 1" "dev (mem s_held (Cache 1)) = 1"
    "blockno (mem s_held (Cache 1)) = 5" "valid (mem s_held (Cache 1))"
    "lists_of s_held (HashHead 5) = [Cache 1]" "lists_of s_held FreelistHead = [Cache 0]"
    "nat (hash (sint (5 :: u32))) = 5"
    by code_simp+
  from brelse_effect [OF cache_inv_s_held sl h] e
  have "\<exists>s'. brelse 1 (Cache 1) s_held = Inr s' \<and> refcnt (mem s' (Cache 1)) = 0 \<and>
      lock (mem s' (Cache 1)) = None \<and>
      dev (mem s' (Cache 1)) = 1 \<and> blockno (mem s' (Cache 1)) = 5 \<and> valid (mem s' (Cache 1)) \<and>
      list_of s' (HashHead 5) = Some [] \<and>
      list_of s' FreelistHead = Some [Cache 1, Cache 0] \<and>
      cached s' 1 5 \<noteq> Some (Cache 1)"
    by auto
  with cache_inv_s_held sl h show ?thesis by blast
qed




text \<open>
  C6.  \<open>bwrite\<close> and \<open>brelse\<close> called by a process that does not hold the slot's
  content access panic, in every state.  Called by the holder, \<open>bwrite\<close> returns and
  the caller still holds the content access; \<open>brelse\<close> never panics, and it returns
  whenever the slot's block number indexes \<open>hash_table\<close> (as it does for every slot a
  fetch has keyed).
\<close>

theorem content_access_required:
  "(\<not> holdingsleep p b s \<longrightarrow>
      bwrite p b s = Inl (Panic ''bwrite'') \<and> brelse p b s = Inl (Panic ''brelse'')) \<and>
   (holdingsleep p b s \<longrightarrow>
      (\<exists>s'. bwrite p b s = Inr s' \<and> holdingsleep p b s') \<and>
      (\<forall>m. brelse p b s \<noteq> Inl (Panic m)) \<and>
      (0 \<le> hash (sint (blockno (mem s b))) \<longrightarrow> (\<exists>s'. brelse p b s = Inr s')))"
  using brelse_returns [of p b s]
  by (auto simp: brelse_panic bwrite_panic bwrite_holding brelse_never_panics holdingsleep_def)

theorem content_access_required_witness:
  "\<not> holdingsleep 2 (Cache 1) s_held \<and>
   bwrite 2 (Cache 1) s_held = Inl (Panic ''bwrite'') \<and>
   brelse 2 (Cache 1) s_held = Inl (Panic ''brelse'') \<and>
   holdingsleep 1 (Cache 1) s_held \<and>
   0 \<le> hash (sint (blockno (mem s_held (Cache 1)))) \<and>
   (\<exists>s'. bwrite 1 (Cache 1) s_held = Inr s' \<and> holdingsleep 1 (Cache 1) s') \<and>
   (\<exists>s'. brelse 1 (Cache 1) s_held = Inr s')"
proof -
  have n: "\<not> holdingsleep 2 (Cache 1) s_held" by code_simp
  have h: "holdingsleep 1 (Cache 1) s_held" by code_simp
  have k: "0 \<le> hash (sint (blockno (mem s_held (Cache 1))))" by code_simp
  from content_access_required [of 2 "Cache 1" s_held]
    content_access_required [of 1 "Cache 1" s_held] n h k
  show ?thesis by blast
qed

text \<open>
  C7.  When the scan of the bucket finds no slot with the requested identity and the
  free list holds no slot with reference count zero, \<open>bget\<close>, and with it \<open>bread\<close>,
  panics with "bget: no buffers": it neither waits nor returns.  After \<open>binit\<close> with
  \<open>K\<close> slots, \<open>K\<close> fetches of blocks with pairwise different identities all return,
  and a further fetch of yet another block panics in this way.
\<close>

theorem pool_exhaustion:
  "(0 \<le> hash (sint n) \<and>
    list_of s (HashHead (nat (hash (sint n)))) = Some xs \<and>
    find (\<lambda>b. dev (mem s b) = d \<and> blockno (mem s b) = n) xs = None \<and>
    list_of s FreelistHead = Some fl \<and> (\<forall>b\<in>set fl. refcnt (mem s b) \<noteq> 0) \<longrightarrow>
      bget p d n s = Inl (Panic ''bget: no buffers'') \<and>
      bread p d n s = Inl (Panic ''bget: no buffers'')) \<and>
   ((\<forall>i<K. refcnt (mem sb (Cache i)) = 0) \<and> length reqs = K \<and>
    distinct (map snd (reqs @ [(p', d', n')])) \<and>
    (\<forall>r\<in>set (reqs @ [(p', d', n')]). 0 \<le> hash (sint (snd (snd r)))) \<longrightarrow>
      (\<exists>s'. run (map fetch reqs) (binit K sb) = Inr s' \<and>
            bread p' d' n' s' = Inl (Panic ''bget: no buffers'')))"
proof (intro conjI impI)
  assume a: "0 \<le> hash (sint n) \<and>
    list_of s (HashHead (nat (hash (sint n)))) = Some xs \<and>
    find (\<lambda>b. dev (mem s b) = d \<and> blockno (mem s b) = n) xs = None \<and>
    list_of s FreelistHead = Some fl \<and> (\<forall>b\<in>set fl. refcnt (mem s b) \<noteq> 0)"
  then show g: "bget p d n s = Inl (Panic ''bget: no buffers'')"
    by (intro bget_no_buffers [of n s xs d fl]) simp_all
  then show "bread p d n s = Inl (Panic ''bget: no buffers'')" by (simp add: bread_def)
next
  assume "(\<forall>i<K. refcnt (mem sb (Cache i)) = 0) \<and> length reqs = K \<and>
    distinct (map snd (reqs @ [(p', d', n')])) \<and>
    (\<forall>r\<in>set (reqs @ [(p', d', n')]). 0 \<le> hash (sint (snd (snd r))))"
  then show "\<exists>s'. run (map fetch reqs) (binit K sb) = Inr s' \<and>
            bread p' d' n' s' = Inl (Panic ''bget: no buffers'')"
    by (intro exhaustion) simp_all
qed

theorem pool_exhaustion_witness:
  "list_of s_stuck (HashHead 5) = Some [] \<and>
   list_of s_stuck FreelistHead = Some [Cache 1, Cache 0] \<and>
   refcnt (mem s_stuck (Cache 1)) \<noteq> 0 \<and> refcnt (mem s_stuck (Cache 0)) \<noteq> 0 \<and>
   bread 1 1 5 s_stuck = Inl (Panic ''bget: no buffers'') \<and>
   run [Bread 1 1 5, Bread 2 1 6] (binit 2 (boot [] blank_disk)) = Inr s_two \<and>
   bread 3 1 7 s_two = Inl (Panic ''bget: no buffers'')"
proof -
  have e: "nat (hash (sint (5 :: u32))) = 5" "0 \<le> hash (sint (5 :: u32))"
    "0 \<le> hash (sint (6 :: u32))" "0 \<le> hash (sint (7 :: u32))"
    "list_of s_stuck (HashHead 5) = Some []"
    "list_of s_stuck FreelistHead = Some [Cache 1, Cache 0]"
    "refcnt (mem s_stuck (Cache 1)) \<noteq> 0" "refcnt (mem s_stuck (Cache 0)) \<noteq> 0"
    by code_simp+
  have r: "run [Bread 1 1 5, Bread 2 1 6] (binit 2 (boot [] blank_disk)) = Inr s_two"
    unfolding s_two_def s_init_def by (rule legal_run [of 2]) code_simp
  note t = pool_exhaustion [where s=s_stuck and n=5 and d=1 and p=1 and xs="[]"
      and fl="[Cache 1, Cache 0]" and K=2 and sb="boot [] blank_disk"
      and reqs="[(1, 1, 5), (2, 1, 6)]" and p'=3 and d'=1 and n'=7]
  from t e have 1: "bread 1 1 5 s_stuck = Inl (Panic ''bget: no buffers'')" by simp
  from t e have "\<exists>s'. run (map fetch [(1, 1, 5), (2, 1, 6)]) (binit 2 (boot [] blank_disk)) = Inr s' \<and>
      bread 3 1 7 s' = Inl (Panic ''bget: no buffers'')"
    by simp
  then obtain s' where "run [Bread 1 1 5, Bread 2 1 6] (binit 2 (boot [] blank_disk)) = Inr s'"
    "bread 3 1 7 s' = Inl (Panic ''bget: no buffers'')" by auto
  with r have 2: "bread 3 1 7 s_two = Inl (Panic ''bget: no buffers'')" by simp
  from e r 1 2 show ?thesis by simp
qed



text \<open>
  C9.  \<open>bunpin\<close> subtracts one from the slot's reference count between acquiring and
  releasing the lock of the bucket of the slot's block number, and changes nothing else:
  no other field of any node, no link, so every list has the members it had, also when
  the count becomes zero; the device is not touched.
\<close>

theorem bunpin_frame:
  "0 \<le> hash (sint (blockno (mem s b))) \<Longrightarrow>
   \<exists>s'. bunpin b s = Inr s' \<and>
        mem s' = (mem s)(b := (mem s b)\<lparr>refcnt := refcnt (mem s b) - 1\<rparr>) \<and>
        disk s' = disk s \<and> io s' = io s \<and>
        spin s' = spin s @ bucket_only (nat (hash (sint (blockno (mem s b))))) \<and>
        (\<forall>lh. list_of s' lh = list_of s lh)"
proof -
  assume h: "0 \<le> hash (sint (blockno (mem s b)))"
  let ?s = "s\<lparr>mem := (mem s)(b := (mem s b)\<lparr>refcnt := refcnt (mem s b) - 1\<rparr>),
               spin := spin s @ bucket_only (nat (hash (sint (blockno (mem s b)))))\<rparr>"
  have "bunpin b s = Inr ?s" using bunpin_eq [OF h] by (simp add: bucket_only_def)
  moreover have "list_of ?s lh = list_of s lh" for lh by (rule list_of_cong) simp
  ultimately show ?thesis by simp
qed

theorem bunpin_frame_witness:
  "0 \<le> hash (sint (blockno (mem s_held (Cache 1)))) \<and>
   refcnt (mem s_held (Cache 1)) - 1 = 0 \<and>
   (\<exists>s'. bunpin (Cache 1) s_held = Inr s' \<and>
        mem s' = (mem s_held)(Cache 1 :=
                   (mem s_held (Cache 1))\<lparr>refcnt := refcnt (mem s_held (Cache 1)) - 1\<rparr>) \<and>
        disk s' = disk s_held \<and> io s' = io s_held \<and>
        spin s' = spin s_held @ bucket_only (nat (hash (sint (blockno (mem s_held (Cache 1)))))) \<and>
        (\<forall>lh. list_of s' lh = list_of s_held lh))"
proof -
  have h: "0 \<le> hash (sint (blockno (mem s_held (Cache 1))))" by code_simp
  have z: "refcnt (mem s_held (Cache 1)) - 1 = 0" by code_simp
  from bunpin_frame [OF h] h z show ?thesis by simp
qed

text \<open>
  C10.  \<open>bwrite\<close> called by the holder of the slot's content access returns, and the
  state it returns differs from the one before only in the device: the slot's content
  is written to the block of the slot's identity, and the write is recorded.  The fields
  of every node (reference count, validity flag, identity, links, holder), and with them
  every list, are as before, and no spinlock is taken.
\<close>

theorem bwrite_frame:
  "holdingsleep p b s \<Longrightarrow>
   \<exists>s'. bwrite p b s = Inr s' \<and> mem s' = mem s \<and> spin s' = spin s \<and>
        (\<forall>lh. list_of s' lh = list_of s lh) \<and>
        disk s' = (disk s)((dev (mem s b), blockno (mem s b)) := data (mem s b)) \<and>
        io s' = io s @ [DiskWrite (dev (mem s b)) (blockno (mem s b)) (data (mem s b))]"
  by (simp add: bwrite_holding list_of_def)

theorem bwrite_frame_witness:
  "holdingsleep 1 (Cache 1) s_held \<and>
   (\<exists>s'. bwrite 1 (Cache 1) s_held = Inr s' \<and> mem s' = mem s_held \<and> spin s' = spin s_held \<and>
        (\<forall>lh. list_of s' lh = list_of s_held lh) \<and>
        disk s' = (disk s_held)((dev (mem s_held (Cache 1)), blockno (mem s_held (Cache 1))) :=
                    data (mem s_held (Cache 1))) \<and>
        io s' = io s_held @ [DiskWrite (dev (mem s_held (Cache 1))) (blockno (mem s_held (Cache 1)))
                               (data (mem s_held (Cache 1)))])"
proof -
  have h: "holdingsleep 1 (Cache 1) s_held" by code_simp
  from bwrite_frame [OF h] h show ?thesis by simp
qed

end
